theory Spec2Isabelle
  imports Complex_Main "HOL-Library.AList"
begin

section \<open>Data model of \<open>compute_mAP.py\<close>\<close>

text \<open>
  The evaluation core of \<open>src/compute_mAP.py\<close>: \<open>box_iou\<close>, \<open>match_gt_box\<close>,
  \<open>voc_ap\<close>, \<open>get_rec_prec\<close>, \<open>calc_AP\<close> and the class loop of \<open>compute_mAP\<close>.

  Python floats are idealised as \<open>real\<close>: every arithmetic step is exact. Python
  integers are \<open>int\<close>. A box is stored in the source as the string
  \<open>'xmin,ymin,xmax,ymax'\<close> and parsed by \<open>[float(x) for x in s.split(',')]\<close>; the
  model holds the four parsed coordinates, in the order of the source's indices 0..3.
\<close>

type_synonym box = "real \<times> real \<times> real \<times> real"

datatype usage = Unused | Used

datatype error = KeyError | IndexError | ZeroDivisionError

text \<open>A prediction record \<open>['image_file', 'xmin,ymin,xmax,ymax', score]\<close>.\<close>

record pred_record =
  pred_image :: string
  pred_box :: box
  pred_score :: real

text \<open>
  A ground-truth record after \<open>calc_AP\<close> has appended the usage flag:
  \<open>['image_file', 'xmin,ymin,xmax,ymax', 'usage']\<close>.
\<close>

record gt_record =
  gt_image :: string
  gt_box :: box
  gt_usage :: usage

section \<open>\<open>box_iou\<close>\<close>

fun box_iou :: "box \<Rightarrow> box \<Rightarrow> real" where
  "box_iou (p0, p1, p2, p3) (g0, g1, g2, g3) =
     (let inter_box = (max p0 g0, max p1 g1, min p2 g2, min p3 g3);
          pred_area = (p2 - p0) * (p3 - p1);
          gt_area = (g2 - g0) * (g3 - g1);
          inter_area = (case inter_box of (i0, i1, i2, i3) \<Rightarrow> (i2 - i0) * (i3 - i1));
          union_area = pred_area + gt_area - inter_area
      in if union_area = 0 then 0 else inter_area / union_area)"

section \<open>\<open>match_gt_box\<close>\<close>

text \<open>
  The \<open>for i, gt_record in enumerate(gt_records)\<close> loop: \<open>i\<close> is the index of the
  record at the head of the remaining list, the pair is \<open>(max_iou, max_index)\<close>.
\<close>

fun match_scan :: "pred_record \<Rightarrow> gt_record list \<Rightarrow> nat \<Rightarrow> real \<times> int \<Rightarrow> real \<times> int" where
  "match_scan pred [] i (max_iou, max_index) = (max_iou, max_index)"
| "match_scan pred (g # gs) i (max_iou, max_index) =
     (let iou = box_iou (pred_box pred) (gt_box g) in
      if iou > max_iou \<and> gt_usage g = Unused \<and> pred_image pred = gt_image g
      then match_scan pred gs (Suc i) (iou, int i)
      else match_scan pred gs (Suc i) (max_iou, max_index))"

definition match_gt_box :: "pred_record \<Rightarrow> gt_record list \<Rightarrow> real \<Rightarrow> int" where
  "match_gt_box pred gt_records iou_threshold =
     (case match_scan pred gt_records 0 (0, - 1) of
        (max_iou, max_index) \<Rightarrow> if max_iou < iou_threshold then - 1 else max_index)"

section \<open>\<open>voc_ap\<close>\<close>

text \<open>
  \<open>for i in range(len(mpre) - 2, -1, -1): mpre[i] = max(mpre[i], mpre[i + 1])\<close>.
  The counter \<open>Suc i\<close> runs from \<open>len(mpre) - 1\<close> down to 1, so \<open>i\<close> runs from
  \<open>len(mpre) - 2\<close> down to 0.
\<close>

fun envelope_loop :: "nat \<Rightarrow> real list \<Rightarrow> real list" where
  "envelope_loop 0 mpre = mpre"
| "envelope_loop (Suc i) mpre = envelope_loop i (mpre[i := max (mpre ! i) (mpre ! (i + 1))])"

definition recall_changes :: "real list \<Rightarrow> nat list" where
  "recall_changes mrec = filter (\<lambda>i. mrec ! i \<noteq> mrec ! (i - 1)) [1..<length mrec]"

text \<open>
  \<open>for i in i_list: ap += ((mrec[i] - mrec[i - 1]) * mpre[i])\<close>. Every \<open>i\<close> of
  \<open>i_list\<close> is a position of \<open>mrec\<close> from 1 on, so the two reads of \<open>mrec\<close> are in
  range; \<open>mpre[i]\<close> raises \<open>IndexError\<close> when \<open>i\<close> is not a position of \<open>mpre\<close>,
  which happens when \<open>rec\<close> is longer than \<open>prec\<close>.
\<close>

fun area_sum :: "real list \<Rightarrow> real list \<Rightarrow> nat list \<Rightarrow> real \<Rightarrow> error + real" where
  "area_sum mrec mpre [] ap = Inr ap"
| "area_sum mrec mpre (i # i_list) ap =
     (if i < length mpre
      then area_sum mrec mpre i_list (ap + (mrec ! i - mrec ! (i - 1)) * mpre ! i)
      else Inl IndexError)"

text \<open>
  \<open>voc_ap\<close> inserts and appends on its two argument lists in place and then copies
  them. The result is the returned triple \<open>(ap, mrec, mpre)\<close>, or the error raised
  in the summation, paired with the final contents of the caller's \<open>rec\<close> and \<open>prec\<close>
  lists (two distinct list objects, as in \<open>calc_AP\<close>, where they are separate copies).
  The lists are mutated before the summation starts, so they hold the new contents
  also when the call raises.
\<close>

definition voc_ap ::
  "real list \<Rightarrow> real list \<Rightarrow> (error + (real \<times> real list \<times> real list)) \<times> (real list \<times> real list)" where
  "voc_ap rec prec =
     (let rec1 = 0 # rec;
          rec2 = rec1 @ [1];
          mrec = rec2;
          prec1 = 0 # prec;
          prec2 = prec1 @ [0];
          mpre = envelope_loop (length prec2 - 1) prec2;
          i_list = recall_changes mrec
      in (case area_sum mrec mpre i_list 0 of
            Inl e \<Rightarrow> Inl e
          | Inr ap \<Rightarrow> Inr (ap, mrec, mpre),
          (rec2, prec2)))"

section \<open>\<open>get_rec_prec\<close>\<close>

text \<open>
  \<open>for idx, val in enumerate(xs): xs[idx] += cumsum; cumsum += val\<close>: the in-place
  running sum. \<open>calc_AP\<close> does not read the two flag lists again after the call.
\<close>

fun cumsum_loop :: "int \<Rightarrow> int list \<Rightarrow> int list" where
  "cumsum_loop cumsum [] = []"
| "cumsum_loop cumsum (val # xs) = (val + cumsum) # cumsum_loop (cumsum + val) xs"

text \<open>\<open>rec[idx] = float(true_positive[idx]) / len(gt_records)\<close>, raising on a zero length.\<close>

fun rec_loop :: "int list \<Rightarrow> nat \<Rightarrow> error + real list" where
  "rec_loop [] n = Inr []"
| "rec_loop (t # ts) n =
     (if n = 0 then Inl ZeroDivisionError
      else case rec_loop ts n of
             Inl e \<Rightarrow> Inl e
           | Inr rs \<Rightarrow> Inr (real_of_int t / real n # rs))"

text \<open>
  \<open>prec[idx] = float(true_positive[idx]) / (false_positive[idx] + true_positive[idx])\<close>:
  the index runs over \<open>true_positive\<close>; reading \<open>false_positive\<close> beyond its end raises
  \<open>IndexError\<close>, a zero denominator raises \<open>ZeroDivisionError\<close>.
\<close>

fun prec_loop :: "int list \<Rightarrow> int list \<Rightarrow> error + real list" where
  "prec_loop [] fps = Inr []"
| "prec_loop (t # ts) [] = Inl IndexError"
| "prec_loop (t # ts) (f # fs) =
     (if f + t = 0 then Inl ZeroDivisionError
      else case prec_loop ts fs of
             Inl e \<Rightarrow> Inl e
           | Inr ps \<Rightarrow> Inr (real_of_int t / real_of_int (f + t) # ps))"

definition get_rec_prec :: "int list \<Rightarrow> int list \<Rightarrow> gt_record list \<Rightarrow> error + (real list \<times> real list)" where
  "get_rec_prec true_positive false_positive gt_records =
     (let false_positive' = cumsum_loop 0 false_positive;
          true_positive' = cumsum_loop 0 true_positive
      in case rec_loop true_positive' (length gt_records) of
           Inl e \<Rightarrow> Inl e
         | Inr rec \<Rightarrow>
             (case prec_loop true_positive' false_positive' of
                Inl e \<Rightarrow> Inl e
              | Inr prec \<Rightarrow> Inr (rec, prec)))"

section \<open>\<open>calc_AP\<close>\<close>

text \<open>
  \<open>gt_records = [gt_record + ['unused'] for gt_record in gt_records]\<close> builds one fresh
  record object per ground truth. The store of these objects is the list itself: the
  address of a record is its position in \<open>gt_records\<close>. \<open>image_gt_records\<close> is a list
  of references into that store, so the assignment \<open>image_gt_records[i][2] = 'used'\<close>
  writes to the store.
\<close>

record match_state =
  gt_records :: "gt_record list"
  true_positive :: "int list"
  false_positive :: "int list"
  true_positive_count :: nat

definition image_gt_refs :: "gt_record list \<Rightarrow> pred_record \<Rightarrow> nat list" where
  "image_gt_refs store pred =
     filter (\<lambda>a. gt_image (store ! a) = pred_image pred) [0..<length store]"

text \<open>
  The body of the \<open>for idx, pred_record in enumerate(pred_records)\<close> loop. Every
  index is in range in the source: \<open>idx\<close> is below \<open>nd\<close>, the length both flag lists
  are created with, and \<open>i\<close> is \<open>-1\<close> or a position of \<open>image_gt_records\<close>
  (lemma \<open>matched_gt_props\<close> below).
\<close>

definition assign_step :: "real \<Rightarrow> nat \<Rightarrow> pred_record \<Rightarrow> match_state \<Rightarrow> match_state" where
  "assign_step iou_threshold idx pred s =
     (let image_gt_records = image_gt_refs (gt_records s) pred;
          i = match_gt_box pred (map (\<lambda>a. gt_records s ! a) image_gt_records) iou_threshold
      in if i \<noteq> - 1
         then (let a = image_gt_records ! nat i in
               s\<lparr>gt_records := (gt_records s)[a := (gt_records s ! a)\<lparr>gt_usage := Used\<rparr>],
                 true_positive := (true_positive s)[idx := 1],
                 true_positive_count := true_positive_count s + 1\<rparr>)
         else s\<lparr>false_positive := (false_positive s)[idx := 1]\<rparr>)"

fun matching_loop :: "real \<Rightarrow> nat \<Rightarrow> pred_record list \<Rightarrow> match_state \<Rightarrow> match_state" where
  "matching_loop iou_threshold idx [] s = s"
| "matching_loop iou_threshold idx (pred # preds) s =
     matching_loop iou_threshold (Suc idx) preds (assign_step iou_threshold idx pred s)"

definition init_state :: "(string \<times> box) list \<Rightarrow> pred_record list \<Rightarrow> match_state" where
  "init_state gts pred_records =
     \<lparr>gt_records = map (\<lambda>(img, b). \<lparr>gt_image = img, gt_box = b, gt_usage = Unused\<rparr>) gts,
      true_positive = replicate (length pred_records) 0,
      false_positive = replicate (length pred_records) 0,
      true_positive_count = 0\<rparr>"

text \<open>
  The matching pass of \<open>calc_AP\<close> with the threshold as a parameter; the source passes
  the constant \<open>iou_threshold=0.5\<close>.
\<close>

definition matching_pass :: "real \<Rightarrow> (string \<times> box) list \<Rightarrow> pred_record list \<Rightarrow> match_state" where
  "matching_pass iou_threshold gts pred_records =
     matching_loop iou_threshold 0 pred_records (init_state gts pred_records)"

text \<open>\<open>draw_rec_prec\<close> only plots; it is left out.\<close>

definition calc_AP :: "(string \<times> box) list \<Rightarrow> pred_record list \<Rightarrow> error + (real \<times> nat)" where
  "calc_AP gts pred_records =
     (let s = matching_pass (1 / 2) gts pred_records in
      case get_rec_prec (true_positive s) (false_positive s) (gt_records s) of
        Inl e \<Rightarrow> Inl e
      | Inr (rec, prec) \<Rightarrow>
          (case voc_ap rec prec of
             (Inl e, _) \<Rightarrow> Inl e
           | (Inr (ap, mrec, mprec), _) \<Rightarrow> Inr (ap, true_positive_count s)))"

section \<open>\<open>compute_mAP\<close>\<close>

text \<open>
  The two dictionaries \<open>gt_classes_records\<close> and \<open>pred_classes_records\<close> come from
  \<open>annotation_parse\<close> and from the detector; they are parameters here. The result
  dictionaries \<open>APs\<close> and \<open>count_true_positives\<close> are association lists in insertion
  order. \<open>np.mean\<close> of an empty list is \<open>nan\<close>, which is \<open>None\<close> here. The model
  ends where \<open>mAP\<close> is computed; the rest of the function draws plots and prints.
\<close>

type_synonym 'v dict = "(string \<times> 'v) list"

fun class_loop ::
  "(string \<rightharpoonup> (string \<times> box) list) \<Rightarrow> (string \<rightharpoonup> pred_record list) \<Rightarrow> string list \<Rightarrow>
   real dict \<times> nat dict \<Rightarrow> error + (real dict \<times> nat dict)" where
  "class_loop gt_classes_records pred_classes_records [] (APs, count_true_positives) =
     Inr (APs, count_true_positives)"
| "class_loop gt_classes_records pred_classes_records (class_name # class_names) (APs, count_true_positives) =
     (case gt_classes_records class_name of
        None \<Rightarrow> Inl KeyError
      | Some gts \<Rightarrow>
          (case pred_classes_records class_name of
             None \<Rightarrow>
               class_loop gt_classes_records pred_classes_records class_names
                 (AList.update class_name 0 APs, count_true_positives)
           | Some pred_records \<Rightarrow>
               (case calc_AP gts pred_records of
                  Inl e \<Rightarrow> Inl e
                | Inr (ap, tp_count) \<Rightarrow>
                    class_loop gt_classes_records pred_classes_records class_names
                      (AList.update class_name ap APs,
                       AList.update class_name tp_count count_true_positives))))"

definition np_mean :: "real list \<Rightarrow> real option" where
  "np_mean xs = (if xs = [] then None else Some (sum_list xs / real (length xs)))"

definition compute_mAP ::
  "(string \<rightharpoonup> (string \<times> box) list) \<Rightarrow> (string \<rightharpoonup> pred_record list) \<Rightarrow> string list \<Rightarrow>
   error + (real dict \<times> nat dict \<times> real option)" where
  "compute_mAP gt_classes_records pred_classes_records class_names =
     (case class_loop gt_classes_records pred_classes_records class_names ([], []) of
        Inl e \<Rightarrow> Inl e
      | Inr (APs, count_true_positives) \<Rightarrow>
          Inr (APs, count_true_positives,
               map_option (\<lambda>m. m * 100) (np_mean (map snd APs))))"

section \<open>Definitions that follow the specification's words\<close>

text \<open>
  Step 2 of the AP Integrator: the last value stays, every earlier value becomes the
  maximum of itself and its (already replaced) successor.
\<close>

fun spec_envelope :: "real list \<Rightarrow> real list" where
  "spec_envelope [] = []"
| "spec_envelope [x] = [x]"
| "spec_envelope (x # y # ys) = (let zs = spec_envelope (y # ys) in max x (hd zs) # zs)"

text \<open>Steps 3 and 4: the sum over the break-points of recall.\<close>

definition spec_ap :: "real list \<Rightarrow> real list \<Rightarrow> real" where
  "spec_ap mrec mprec =
     (\<Sum>i \<in> {i \<in> {1..<length mrec}. mrec ! i \<noteq> mrec ! (i - 1)}.
        (mrec ! i - mrec ! (i - 1)) * mprec ! i)"

text \<open>
  The Greedy Matcher's words: a candidate is eligible when it is marked unused and
  shares the prediction's image; the selected candidate has the greatest IoU among the
  eligible ones, and on ties it is the first one in the list.
\<close>

definition eligible :: "pred_record \<Rightarrow> gt_record \<Rightarrow> bool" where
  "eligible pred g \<longleftrightarrow> gt_usage g = Unused \<and> pred_image pred = gt_image g"

definition iou_at :: "pred_record \<Rightarrow> gt_record list \<Rightarrow> nat \<Rightarrow> real" where
  "iou_at pred gts i = box_iou (pred_box pred) (gt_box (gts ! i))"

definition first_best :: "pred_record \<Rightarrow> gt_record list \<Rightarrow> nat \<Rightarrow> bool" where
  "first_best pred gts i \<longleftrightarrow>
     i < length gts \<and> eligible pred (gts ! i) \<and>
     (\<forall>j < length gts. eligible pred (gts ! j) \<longrightarrow> iou_at pred gts j \<le> iou_at pred gts i) \<and>
     (\<forall>j < i. eligible pred (gts ! j) \<longrightarrow> iou_at pred gts j < iou_at pred gts i)"

section \<open>Definitions for the matching pass\<close>

text \<open>
  The record that the body of the loop marks for a prediction: the reference
  \<open>image_gt_records[i]\<close> when \<open>match_gt_box\<close> returns an index, nothing when it
  returns \<open>-1\<close>.
\<close>

definition matched_gt :: "real \<Rightarrow> pred_record \<Rightarrow> gt_record list \<Rightarrow> nat option" where
  "matched_gt thr pred store =
     (let image_gt_records = image_gt_refs store pred;
          i = match_gt_box pred (map (\<lambda>a. store ! a) image_gt_records) thr
      in if i \<noteq> - 1 then Some (image_gt_records ! nat i) else None)"

text \<open>The same choice stated on the store: the first best eligible record, when its IoU
  is positive and reaches the threshold.\<close>

definition chosen :: "real \<Rightarrow> pred_record \<Rightarrow> gt_record list \<Rightarrow> nat \<Rightarrow> bool" where
  "chosen thr pred store a \<longleftrightarrow>
     first_best pred store a \<and> 0 < iou_at pred store a \<and> thr \<le> iou_at pred store a"

text \<open>The state of the pass after the first \<open>k\<close> predictions, the record matched to
  prediction \<open>k\<close>, and the usage flag of record \<open>a\<close> after \<open>k\<close> predictions.\<close>

definition state_after :: "real \<Rightarrow> (string \<times> box) list \<Rightarrow> pred_record list \<Rightarrow> nat \<Rightarrow> match_state" where
  "state_after thr gts preds k = matching_loop thr 0 (take k preds) (init_state gts preds)"

definition match_at :: "real \<Rightarrow> (string \<times> box) list \<Rightarrow> pred_record list \<Rightarrow> nat \<Rightarrow> nat option" where
  "match_at thr gts preds k = matched_gt thr (preds ! k) (gt_records (state_after thr gts preds k))"

definition usage_after :: "real \<Rightarrow> (string \<times> box) list \<Rightarrow> pred_record list \<Rightarrow> nat \<Rightarrow> nat \<Rightarrow> usage" where
  "usage_after thr gts preds k a = gt_usage (gt_records (state_after thr gts preds k) ! a)"

text \<open>The addresses of the records marked used.\<close>

definition used_set :: "gt_record list \<Rightarrow> nat set" where
  "used_set store = {a. a < length store \<and> gt_usage (store ! a) = Used}"

text \<open>
  Invariant of the flag lists when \<open>k\<close> of \<open>n\<close> predictions are done: below \<open>k\<close>
  exactly one of the two flags is 1, from \<open>k\<close> on both are 0, and the true-positive
  flags sum to the counter.
\<close>

definition flags_inv :: "nat \<Rightarrow> nat \<Rightarrow> match_state \<Rightarrow> bool" where
  "flags_inv n k s \<longleftrightarrow>
     length (true_positive s) = n \<and> length (false_positive s) = n \<and>
     (\<forall>i < n. (i < k \<longrightarrow> (true_positive s ! i = 1 \<and> false_positive s ! i = 0) \<or>
                          (true_positive s ! i = 0 \<and> false_positive s ! i = 1)) \<and>
              (k \<le> i \<longrightarrow> true_positive s ! i = 0 \<and> false_positive s ! i = 0)) \<and>
     sum_list (true_positive s) = int (true_positive_count s)"

text \<open>
  Two stores of the same ground truth, one from a pass with a higher threshold and one
  from a pass with a lower threshold: same images and boxes, and every record used in
  the first is used in the second.
\<close>

definition store_le :: "gt_record list \<Rightarrow> gt_record list \<Rightarrow> bool" where
  "store_le sh sl \<longleftrightarrow>
     length sh = length sl \<and>
     (\<forall>a < length sh. gt_image (sh ! a) = gt_image (sl ! a) \<and> gt_box (sh ! a) = gt_box (sl ! a) \<and>
        (gt_usage (sh ! a) = Used \<longrightarrow> gt_usage (sl ! a) = Used))"

text \<open>
  Box Geometry's words: a box is well-formed when \<open>xmax \<ge> xmin\<close> and
  \<open>ymax \<ge> ymin\<close>; two rectangles are disjoint when they share no area, that is,
  when one lies beside or above the other.
\<close>

fun well_formed :: "box \<Rightarrow> bool" where
  "well_formed (xmin, ymin, xmax, ymax) \<longleftrightarrow> xmin \<le> xmax \<and> ymin \<le> ymax"

fun disjoint_boxes :: "box \<Rightarrow> box \<Rightarrow> bool" where
  "disjoint_boxes (a0, a1, a2, a3) (b0, b1, b2, b3) \<longleftrightarrow>
     a2 \<le> b0 \<or> b2 \<le> a0 \<or> a3 \<le> b1 \<or> b3 \<le> a1"

section \<open>The AP Integrator\<close>

lemma length_spec_envelope: "length (spec_envelope xs) = length xs"
  by (induction xs rule: spec_envelope.induct) (simp_all add: Let_def)

lemma spec_envelope_Cons:
  "xs \<noteq> [] \<Longrightarrow> spec_envelope (x # xs) = max x (hd (spec_envelope xs)) # spec_envelope xs"
  by (cases xs) (simp_all add: Let_def)

lemma length_envelope_loop: "length (envelope_loop k xs) = length xs"
  by (induction k arbitrary: xs) simp_all

text \<open>
  Loop invariant of the sweep: when the counter is \<open>k\<close>, the positions from \<open>k\<close> on
  hold the envelope of that suffix and the positions before \<open>k\<close> are untouched.
\<close>

lemma envelope_loop_suffix:
  "k < length xs \<Longrightarrow> envelope_loop k (take k xs @ spec_envelope (drop k xs)) = spec_envelope xs"
proof (induction k)
  case 0
  then show ?case by simp
next
  case (Suc k)
  let ?zs = "spec_envelope (drop (Suc k) xs)"
  let ?ys = "take (Suc k) xs @ ?zs"
  from Suc.prems have k: "k < length xs" and ne: "drop (Suc k) xs \<noteq> []" by simp_all
  have lz: "length ?zs = length xs - Suc k" by (simp add: length_spec_envelope)
  have zne: "?zs \<noteq> []" using lz Suc.prems by (metis length_0_conv zero_less_diff less_numeral_extra(3))
  have tk: "take (Suc k) xs = take k xs @ [xs ! k]" using k by (simp add: take_Suc_conv_app_nth)
  have yk: "?ys ! k = xs ! k" using k by (simp add: tk nth_append)
  have yk1: "?ys ! (k + 1) = hd ?zs"
    using Suc.prems zne by (simp add: nth_append hd_conv_nth)
  have dk: "drop k xs = xs ! k # drop (Suc k) xs" using k by (simp add: Cons_nth_drop_Suc)
  have upd: "?ys[k := v] = take k xs @ (v # ?zs)" for v
    using k by (simp add: tk list_update_append)
  have "?ys[k := max (?ys ! k) (?ys ! (k + 1))] = take k xs @ (max (xs ! k) (hd ?zs) # ?zs)"
    unfolding yk yk1 by (rule upd)
  also have "\<dots> = take k xs @ spec_envelope (drop k xs)"
    using ne by (simp add: dk spec_envelope_Cons)
  finally show ?case using Suc.IH k by simp
qed

lemma envelope_loop_spec:
  assumes "xs \<noteq> []"
  shows "envelope_loop (length xs - 1) xs = spec_envelope xs"
proof -
  let ?k = "length xs - 1"
  have k: "?k < length xs" using assms by simp
  have "drop ?k xs = [last xs]" using assms
    by (metis append_butlast_last_id append_eq_conv_conj length_butlast)
  moreover have "take ?k xs = butlast xs" by (simp add: butlast_conv_take)
  ultimately have "take ?k xs @ spec_envelope (drop ?k xs) = xs" using assms by simp
  with envelope_loop_suffix [OF k] show ?thesis by simp
qed

lemma area_sum_in_range:
  "(\<forall>i \<in> set i_list. i < length mpre) \<Longrightarrow>
     area_sum mrec mpre i_list ap =
       Inr (ap + sum_list (map (\<lambda>i. (mrec ! i - mrec ! (i - 1)) * mpre ! i) i_list))"
  by (induction i_list arbitrary: ap) simp_all

lemma area_sum_out_of_range:
  "(\<exists>i \<in> set i_list. \<not> i < length mpre) \<Longrightarrow> area_sum mrec mpre i_list ap = Inl IndexError"
  by (induction i_list arbitrary: ap) auto

lemma area_sum_spec:
  assumes "length mrec \<le> length mpre"
  shows "area_sum mrec mpre (recall_changes mrec) 0 = Inr (spec_ap mrec mpre)"
proof -
  have d: "distinct (recall_changes mrec)" by (simp add: recall_changes_def)
  have s: "set (recall_changes mrec) = {i \<in> {1..<length mrec}. mrec ! i \<noteq> mrec ! (i - 1)}"
    by (auto simp: recall_changes_def)
  have r: "\<forall>i \<in> set (recall_changes mrec). i < length mpre"
    using assms by (auto simp: recall_changes_def)
  show ?thesis
    unfolding area_sum_in_range [OF r] spec_ap_def
    using sum_list_distinct_conv_sum_set [OF d] s by simp
qed

lemma voc_ap_result:
  assumes "length rec \<le> length prec"
  shows "fst (voc_ap rec prec) =
     Inr (spec_ap (0 # rec @ [1]) (spec_envelope (0 # prec @ [0])),
          0 # rec @ [1],
          spec_envelope (0 # prec @ [0]))"
proof -
  have e: "envelope_loop (length (0 # prec @ [0]) - 1) (0 # prec @ [0]) = spec_envelope (0 # prec @ [0])"
    by (rule envelope_loop_spec) simp
  have "length (0 # rec @ [1]) \<le> length (spec_envelope (0 # prec @ [0]))"
    using assms by (simp add: length_spec_envelope)
  from area_sum_spec [OF this] e show ?thesis
    by (simp add: voc_ap_def Let_def del: envelope_loop.simps)
qed

lemma voc_ap_lists: "snd (voc_ap rec prec) = (0 # rec @ [1], 0 # prec @ [0])"
  by (simp add: voc_ap_def Let_def del: envelope_loop.simps)

text \<open>
  When \<open>rec\<close> is longer than \<open>prec\<close> the call can raise: \<open>voc_ap([0.25, 0.5], [])\<close>
  reaches the break-point index 2 with \<open>mpre = [0, 0]\<close>.
\<close>

lemma voc_ap_index_error:
  "voc_ap [1 / 4, 1 / 2] [] = (Inl IndexError, ([0, 1 / 4, 1 / 2, 1], [0, 0]))"
  by (simp add: voc_ap_def Let_def recall_changes_def upt_conv_Cons)

text \<open>
  Claim C1. \<open>voc_ap\<close>, given a recall and a precision sequence of the same length,
  returns the triple of the specification's four steps: \<open>mrec\<close> is recall with 0 in
  front and 1 behind, \<open>mprec\<close> is precision with 0 in front and 0 behind, swept from
  the second-to-last index down to index 0 with each value replaced by the maximum of
  itself and its successor, and AP is the sum of \<open>(mrec[i] - mrec[i-1]) * mprec[i]\<close>
  over every index \<open>i \<ge> 1\<close> with \<open>mrec[i] \<noteq> mrec[i-1]\<close>.
\<close>

theorem voc_ap_four_steps:
  assumes "length rec = length prec"
  shows "fst (voc_ap rec prec) =
     Inr (spec_ap (0 # rec @ [1]) (spec_envelope (0 # prec @ [0])),
          0 # rec @ [1],
          spec_envelope (0 # prec @ [0]))"
  using assms by (intro voc_ap_result) simp

theorem voc_ap_four_steps_witness:
  "length [1/2, 1/2, 1 :: real] = length [1, 1/2, 2/3 :: real]
   \<and> fst (voc_ap [1/2, 1/2, 1] [1, 1/2, 2/3]) = Inr (5/6, [0, 1/2, 1/2, 1, 1], [1, 1, 2/3, 2/3, 0])
   \<and> spec_ap [0, 1/2, 1/2, 1, 1] (spec_envelope [0, 1, 1/2, 2/3, 0]) = 5/6
   \<and> spec_envelope [0, 1, 1/2, 2/3, 0] = [1, 1, 2/3, 2/3, 0]"
proof -
  have h: "length [1/2, 1/2, 1 :: real] = length [1, 1/2, 2/3 :: real]" by simp
  have v: "fst (voc_ap [1/2, 1/2, 1] [1, 1/2, 2/3]) = Inr (5/6, [0, 1/2, 1/2, 1, 1], [1, 1, 2/3, 2/3, 0])"
    by (simp add: voc_ap_def Let_def recall_changes_def upt_conv_Cons)
  from voc_ap_four_steps [OF h] v h show ?thesis by simp
qed

text \<open>
  Claim C10. \<open>voc_ap\<close> mutates its arguments: after the call the caller's recall list
  is the old one with 0 in front and 1 behind, the caller's precision list is the old
  one with 0 in front and 0 behind, so neither list is what the caller passed; a
  returned \<open>mrec\<close> is a copy of the mutated recall list and a returned \<open>mpre\<close> has the
  length of the mutated precision list. The call returns unless \<open>rec\<close> is longer
  than \<open>prec\<close>, and the lists are mutated also when it raises.
\<close>

theorem voc_ap_mutates_arguments:
  "(case voc_ap rec prec of
      (res, (rec', prec')) \<Rightarrow>
        rec' = 0 # rec @ [1] \<and> prec' = 0 # prec @ [0] \<and>
        rec' \<noteq> rec \<and> prec' \<noteq> prec \<and>
        (case res of
           Inr (ap, mrec, mpre) \<Rightarrow> mrec = rec' \<and> length mpre = length prec'
         | Inl e \<Rightarrow> e = IndexError \<and> length prec < length rec))"
proof (cases "length rec \<le> length prec")
  case True
  from voc_ap_result [OF True] voc_ap_lists [of rec prec] show ?thesis
    by (cases "voc_ap rec prec") (simp add: length_spec_envelope)
next
  case False
  obtain res rec' prec' where v: "voc_ap rec prec = (res, (rec', prec'))"
    by (metis prod.exhaust)
  with voc_ap_lists [of rec prec] have l: "rec' = 0 # rec @ [1]" "prec' = 0 # prec @ [0]" by simp_all
  have r: "(case res of
           Inr (ap, mrec, mpre) \<Rightarrow> mrec = rec' \<and> length mpre = length prec'
         | Inl e \<Rightarrow> e = IndexError \<and> length prec < length rec)"
  proof (cases "area_sum (0 # rec @ [1]) (envelope_loop (length (0 # prec @ [0]) - 1) (0 # prec @ [0]))
                  (recall_changes (0 # rec @ [1])) 0")
    case (Inl e)
    have "e = IndexError"
    proof (rule ccontr)
      assume n: "e \<noteq> IndexError"
      have "\<not> (\<exists>i \<in> set (recall_changes (0 # rec @ [1])).
                \<not> i < length (envelope_loop (length (0 # prec @ [0]) - 1) (0 # prec @ [0])))"
        using area_sum_out_of_range Inl n by (metis sum.inject(1))
      then have "\<forall>i \<in> set (recall_changes (0 # rec @ [1])).
                i < length (envelope_loop (length (0 # prec @ [0]) - 1) (0 # prec @ [0]))" by blast
      from area_sum_in_range [OF this] Inl show False by simp
    qed
    with Inl v False show ?thesis
      by (auto simp add: voc_ap_def Let_def simp del: envelope_loop.simps)
  next
    case (Inr ap)
    with v l show ?thesis
      by (auto simp add: voc_ap_def Let_def length_envelope_loop simp del: envelope_loop.simps)
  qed
  from l have n: "rec' \<noteq> rec" "prec' \<noteq> prec" by simp_all
  show ?thesis unfolding v prod.case by (intro conjI l n r)
qed

theorem voc_ap_mutates_arguments_witness:
  "snd (voc_ap [1 / 2] [1]) = ([0, 1 / 2, 1], [0, 1, 0])
   \<and> snd (voc_ap [1 / 4, 1 / 2] []) = ([0, 1 / 4, 1 / 2, 1], [0, 0])"
  using voc_ap_mutates_arguments [of "[1 / 2]" "[1]"] voc_ap_mutates_arguments [of "[1 / 4, 1 / 2]" "[]"]
  by (simp split: prod.splits)

section \<open>Box geometry\<close>

text \<open>
  Claim C2. For well-formed disjoint boxes \<open>box_iou\<close> should return 0. The two boxes
  \<open>(0,0,10,10)\<close> and \<open>(20,20,30,30)\<close> are well-formed and disjoint; the intersection
  rectangle has width \<open>-10\<close> and height \<open>-10\<close>, whose unclamped product is 100, and
  \<open>box_iou\<close> returns 1.
\<close>

theorem box_iou_disjoint_diagonal:
  "well_formed (0, 0, 10, 10) \<and> well_formed (20, 20, 30, 30) \<and>
   disjoint_boxes (0, 0, 10, 10) (20, 20, 30, 30) \<and>
   box_iou (0, 0, 10, 10) (20, 20, 30, 30) = 1"
  by simp

section \<open>The Greedy Matcher\<close>

text \<open>
  Invariant of the scan: either the pair \<open>(max_iou, max_index)\<close> is unchanged and no
  eligible record of the remaining list exceeds \<open>max_iou\<close>, or the index points at the
  first eligible record of greatest IoU, which exceeds the old \<open>max_iou\<close>.
\<close>

lemma match_scan_cases:
  "match_scan pred gs k (m, x) = (m', x') \<Longrightarrow>
     ((m', x') = (m, x) \<and> (\<forall>j < length gs. eligible pred (gs ! j) \<longrightarrow> iou_at pred gs j \<le> m))
   \<or> (\<exists>i < length gs. x' = int (k + i) \<and> m' = iou_at pred gs i \<and> m < m' \<and> eligible pred (gs ! i) \<and>
          (\<forall>j < length gs. eligible pred (gs ! j) \<longrightarrow> iou_at pred gs j \<le> m') \<and>
          (\<forall>j < i. eligible pred (gs ! j) \<longrightarrow> iou_at pred gs j < m'))"
proof (induction gs arbitrary: k m x)
  case Nil
  then show ?case by simp
next
  case (Cons g gs)
  let ?iou = "box_iou (pred_box pred) (gt_box g)"
  have shift: "iou_at pred (g # gs) (Suc j) = iou_at pred gs j" for j
    by (simp add: iou_at_def)
  have zero: "iou_at pred (g # gs) 0 = ?iou" by (simp add: iou_at_def)
  show ?case
  proof (cases "?iou > m \<and> eligible pred g")
    case True
    with Cons.prems have run: "match_scan pred gs (Suc k) (?iou, int k) = (m', x')"
      by (simp add: eligible_def Let_def)
    from Cons.IH [OF run] show ?thesis
    proof (elim disjE conjE exE)
      assume eq: "(m', x') = (?iou, int k)"
        and le: "\<forall>j<length gs. eligible pred (gs ! j) \<longrightarrow> iou_at pred gs j \<le> ?iou"
      have "\<forall>j<length (g # gs). eligible pred ((g # gs) ! j) \<longrightarrow> iou_at pred (g # gs) j \<le> m'"
      proof (intro allI impI)
        fix j assume "j < length (g # gs)" "eligible pred ((g # gs) ! j)"
        then show "iou_at pred (g # gs) j \<le> m'"
          using le eq by (cases j) (simp_all add: shift zero)
      qed
      with True eq have "0 < length (g # gs) \<and> x' = int (k + 0) \<and> m' = iou_at pred (g # gs) 0 \<and> m < m' \<and>
          eligible pred ((g # gs) ! 0) \<and>
          (\<forall>j < length (g # gs). eligible pred ((g # gs) ! j) \<longrightarrow> iou_at pred (g # gs) j \<le> m') \<and>
          (\<forall>j < 0. eligible pred ((g # gs) ! j) \<longrightarrow> iou_at pred (g # gs) j < m')"
        by (simp add: zero)
      then show ?thesis by blast
    next
      fix i
      assume i: "i < length gs" and x': "x' = int (Suc k + i)" and m': "m' = iou_at pred gs i"
        and lt: "?iou < m'" and el: "eligible pred (gs ! i)"
        and le: "\<forall>j<length gs. eligible pred (gs ! j) \<longrightarrow> iou_at pred gs j \<le> m'"
        and st: "\<forall>j<i. eligible pred (gs ! j) \<longrightarrow> iou_at pred gs j < m'"
      have a: "\<forall>j<length (g # gs). eligible pred ((g # gs) ! j) \<longrightarrow> iou_at pred (g # gs) j \<le> m'"
      proof (intro allI impI)
        fix j assume "j < length (g # gs)" "eligible pred ((g # gs) ! j)"
        then show "iou_at pred (g # gs) j \<le> m'"
          using le lt by (cases j) (simp_all add: shift zero)
      qed
      have b: "\<forall>j<Suc i. eligible pred ((g # gs) ! j) \<longrightarrow> iou_at pred (g # gs) j < m'"
      proof (intro allI impI)
        fix j assume "j < Suc i" "eligible pred ((g # gs) ! j)"
        then show "iou_at pred (g # gs) j < m'"
          using st lt by (cases j) (simp_all add: shift zero)
      qed
      have "Suc i < length (g # gs) \<and> x' = int (k + Suc i) \<and> m' = iou_at pred (g # gs) (Suc i) \<and> m < m' \<and>
          eligible pred ((g # gs) ! Suc i)"
        using i x' m' lt el True by (simp add: shift)
      with a b show ?thesis by blast
    qed
  next
    case False
    with Cons.prems have run: "match_scan pred gs (Suc k) (m, x) = (m', x')"
      by (auto simp add: eligible_def Let_def split: if_splits)
    from False have g: "eligible pred g \<Longrightarrow> ?iou \<le> m" by auto
    from Cons.IH [OF run] show ?thesis
    proof (elim disjE conjE exE)
      assume eq: "(m', x') = (m, x)"
        and le: "\<forall>j<length gs. eligible pred (gs ! j) \<longrightarrow> iou_at pred gs j \<le> m"
      have "\<forall>j<length (g # gs). eligible pred ((g # gs) ! j) \<longrightarrow> iou_at pred (g # gs) j \<le> m"
      proof (intro allI impI)
        fix j assume "j < length (g # gs)" "eligible pred ((g # gs) ! j)"
        then show "iou_at pred (g # gs) j \<le> m"
          using le g by (cases j) (simp_all add: shift zero)
      qed
      with eq show ?thesis by blast
    next
      fix i
      assume i: "i < length gs" and x': "x' = int (Suc k + i)" and m': "m' = iou_at pred gs i"
        and lt: "m < m'" and el: "eligible pred (gs ! i)"
        and le: "\<forall>j<length gs. eligible pred (gs ! j) \<longrightarrow> iou_at pred gs j \<le> m'"
        and st: "\<forall>j<i. eligible pred (gs ! j) \<longrightarrow> iou_at pred gs j < m'"
      have a: "\<forall>j<length (g # gs). eligible pred ((g # gs) ! j) \<longrightarrow> iou_at pred (g # gs) j \<le> m'"
      proof (intro allI impI)
        fix j assume "j < length (g # gs)" "eligible pred ((g # gs) ! j)"
        then show "iou_at pred (g # gs) j \<le> m'"
          using le lt g by (cases j) (auto simp add: shift zero)
      qed
      have b: "\<forall>j<Suc i. eligible pred ((g # gs) ! j) \<longrightarrow> iou_at pred (g # gs) j < m'"
      proof (intro allI impI)
        fix j assume "j < Suc i" "eligible pred ((g # gs) ! j)"
        then show "iou_at pred (g # gs) j < m'"
          using st lt g by (cases j) (auto simp add: shift zero)
      qed
      have "Suc i < length (g # gs) \<and> x' = int (k + Suc i) \<and> m' = iou_at pred (g # gs) (Suc i) \<and> m < m' \<and>
          eligible pred ((g # gs) ! Suc i)"
        using i x' m' lt el by (simp add: shift)
      with a b show ?thesis by blast
    qed
  qed
qed

lemma first_best_unique:
  assumes "first_best pred gts i" "first_best pred gts j"
  shows "i = j"
proof (rule ccontr)
  assume "i \<noteq> j"
  then consider "i < j" | "j < i" by linarith
  then show False
  proof cases
    case 1
    with assms have "iou_at pred gts i < iou_at pred gts j" "iou_at pred gts j \<le> iou_at pred gts i"
      by (auto simp: first_best_def)
    then show False by simp
  next
    case 2
    with assms have "iou_at pred gts j < iou_at pred gts i" "iou_at pred gts i \<le> iou_at pred gts j"
      by (auto simp: first_best_def)
    then show False by simp
  qed
qed

text \<open>The outcome of the scan started at \<open>(0.0, -1)\<close>.\<close>

lemma match_scan_start:
  "match_scan pred gts 0 (0, - 1) = (m, x) \<Longrightarrow>
     (m = 0 \<and> x = - 1 \<and> (\<forall>j < length gts. eligible pred (gts ! j) \<longrightarrow> iou_at pred gts j \<le> 0))
   \<or> (\<exists>i. x = int i \<and> m = iou_at pred gts i \<and> 0 < m \<and> first_best pred gts i)"
  using match_scan_cases [of pred gts 0 0 "- 1" m x]
  by (auto simp: first_best_def)

lemma match_gt_box_int:
  "match_gt_box pred gts thr = int i \<longleftrightarrow>
     first_best pred gts i \<and> 0 < iou_at pred gts i \<and> thr \<le> iou_at pred gts i"
proof -
  obtain m x where run: "match_scan pred gts 0 (0, - 1) = (m, x)" by (cases "match_scan pred gts 0 (0, - 1)")
  have res: "match_gt_box pred gts thr = (if m < thr then - 1 else x)"
    by (simp add: match_gt_box_def run)
  from match_scan_start [OF run] show ?thesis
  proof (elim disjE conjE exE)
    assume m: "m = 0" and x: "x = - 1"
      and le: "\<forall>j<length gts. eligible pred (gts ! j) \<longrightarrow> iou_at pred gts j \<le> 0"
    have "\<not> (first_best pred gts i \<and> 0 < iou_at pred gts i)"
      using le by (auto simp: first_best_def)
    then show ?thesis using res x by auto
  next
    fix i0 assume x: "x = int i0" and m: "m = iou_at pred gts i0" and pos: "0 < m"
      and fb: "first_best pred gts i0"
    show ?thesis
    proof
      assume "match_gt_box pred gts thr = int i"
      with res x have "\<not> m < thr" "i = i0" by (auto split: if_splits)
      then show "first_best pred gts i \<and> 0 < iou_at pred gts i \<and> thr \<le> iou_at pred gts i"
        using fb m pos by simp
    next
      assume a: "first_best pred gts i \<and> 0 < iou_at pred gts i \<and> thr \<le> iou_at pred gts i"
      then have "i = i0" using fb first_best_unique by blast
      then show "match_gt_box pred gts thr = int i" using a res x m by simp
    qed
  qed
qed

lemma match_gt_box_range:
  "match_gt_box pred gts thr = - 1 \<or> (\<exists>i. match_gt_box pred gts thr = int i)"
proof -
  obtain m x where run: "match_scan pred gts 0 (0, - 1) = (m, x)" by (cases "match_scan pred gts 0 (0, - 1)")
  have res: "match_gt_box pred gts thr = (if m < thr then - 1 else x)"
    by (simp add: match_gt_box_def run)
  from match_scan_start [OF run] show ?thesis
    using res by auto
qed

text \<open>
  Claim C4 (amended). \<open>match_gt_box\<close> returns the index \<open>i\<close> exactly when candidate \<open>i\<close>
  is the first candidate of greatest IoU among the unused candidates of the prediction's
  image, its IoU is at least the threshold, and its IoU is positive; in every other case
  it returns \<open>-1\<close>.
\<close>

theorem match_gt_box_first_best:
  "(match_gt_box pred gts thr = int i \<longleftrightarrow>
      first_best pred gts i \<and> 0 < iou_at pred gts i \<and> thr \<le> iou_at pred gts i)
   \<and> (match_gt_box pred gts thr = - 1 \<longleftrightarrow>
      \<not> (\<exists>k. first_best pred gts k \<and> 0 < iou_at pred gts k \<and> thr \<le> iou_at pred gts k))"
proof -
  have "match_gt_box pred gts thr = - 1 \<longleftrightarrow>
      \<not> (\<exists>k. first_best pred gts k \<and> 0 < iou_at pred gts k \<and> thr \<le> iou_at pred gts k)"
  proof
    assume m: "match_gt_box pred gts thr = - 1"
    show "\<not> (\<exists>k. first_best pred gts k \<and> 0 < iou_at pred gts k \<and> thr \<le> iou_at pred gts k)"
    proof
      assume "\<exists>k. first_best pred gts k \<and> 0 < iou_at pred gts k \<and> thr \<le> iou_at pred gts k"
      then obtain k where "match_gt_box pred gts thr = int k" using match_gt_box_int by blast
      with m show False by simp
    qed
  next
    assume n: "\<not> (\<exists>k. first_best pred gts k \<and> 0 < iou_at pred gts k \<and> thr \<le> iou_at pred gts k)"
    then have "\<not> (\<exists>k. match_gt_box pred gts thr = int k)" using match_gt_box_int by blast
    with match_gt_box_range [of pred gts thr] show "match_gt_box pred gts thr = - 1" by blast
  qed
  then show ?thesis using match_gt_box_int by simp
qed

theorem match_gt_box_first_best_witness:
  "first_best \<lparr>pred_image = ''a'', pred_box = (0, 0, 10, 10), pred_score = 1\<rparr>
     [\<lparr>gt_image = ''a'', gt_box = (0, 0, 10, 20), gt_usage = Unused\<rparr>,
      \<lparr>gt_image = ''a'', gt_box = (0, 0, 10, 10), gt_usage = Unused\<rparr>] 1
   \<and> 1 / 2 \<le> iou_at \<lparr>pred_image = ''a'', pred_box = (0, 0, 10, 10), pred_score = 1\<rparr>
     [\<lparr>gt_image = ''a'', gt_box = (0, 0, 10, 20), gt_usage = Unused\<rparr>,
      \<lparr>gt_image = ''a'', gt_box = (0, 0, 10, 10), gt_usage = Unused\<rparr>] 1"
proof -
  have "match_gt_box \<lparr>pred_image = ''a'', pred_box = (0, 0, 10, 10), pred_score = 1\<rparr>
     [\<lparr>gt_image = ''a'', gt_box = (0, 0, 10, 20), gt_usage = Unused\<rparr>,
      \<lparr>gt_image = ''a'', gt_box = (0, 0, 10, 10), gt_usage = Unused\<rparr>] (1 / 2) = int 1"
    by (simp add: match_gt_box_def)
  then show ?thesis
    using match_gt_box_first_best
      [of "\<lparr>pred_image = ''a'', pred_box = (0, 0, 10, 10), pred_score = 1\<rparr>"
          "[\<lparr>gt_image = ''a'', gt_box = (0, 0, 10, 20), gt_usage = Unused\<rparr>,
            \<lparr>gt_image = ''a'', gt_box = (0, 0, 10, 10), gt_usage = Unused\<rparr>]" "1 / 2" 1]
    by blast
qed

text \<open>
  The claim as stated, for every threshold, fails at threshold 0: the single candidate
  touches the prediction's box, it is the first best eligible candidate with IoU 0,
  which is not below the threshold, and \<open>match_gt_box\<close> returns \<open>-1\<close>.
\<close>

theorem match_gt_box_zero_threshold_counterexample:
  "first_best \<lparr>pred_image = ''a'', pred_box = (0, 0, 10, 10), pred_score = 1\<rparr>
     [\<lparr>gt_image = ''a'', gt_box = (10, 0, 20, 10), gt_usage = Unused\<rparr>] 0
   \<and> (0::real) \<le> iou_at \<lparr>pred_image = ''a'', pred_box = (0, 0, 10, 10), pred_score = 1\<rparr>
     [\<lparr>gt_image = ''a'', gt_box = (10, 0, 20, 10), gt_usage = Unused\<rparr>] 0
   \<and> match_gt_box \<lparr>pred_image = ''a'', pred_box = (0, 0, 10, 10), pred_score = 1\<rparr>
     [\<lparr>gt_image = ''a'', gt_box = (10, 0, 20, 10), gt_usage = Unused\<rparr>] 0 = - 1"
  by (simp add: match_gt_box_def first_best_def eligible_def iou_at_def)

section \<open>The Curve Builder\<close>

lemma length_cumsum_loop: "length (cumsum_loop c xs) = length xs"
  by (induction xs arbitrary: c) simp_all

lemma nth_cumsum_loop:
  "i < length xs \<Longrightarrow> cumsum_loop c xs ! i = c + sum_list (take (Suc i) xs)"
proof (induction xs arbitrary: c i)
  case Nil
  then show ?case by simp
next
  case (Cons x xs)
  then show ?case by (cases i) simp_all
qed

lemma rec_loop_ok:
  "n \<noteq> 0 \<Longrightarrow> rec_loop ts n = Inr (map (\<lambda>t. real_of_int t / real n) ts)"
  by (induction ts) simp_all

lemma prec_loop_ok:
  "length ts = length fs \<Longrightarrow> (\<forall>i < length ts. fs ! i + ts ! i \<noteq> 0) \<Longrightarrow>
     prec_loop ts fs = Inr (map (\<lambda>(t, f). real_of_int t / real_of_int (f + t)) (zip ts fs))"
proof (induction ts fs rule: list_induct2)
  case Nil
  then show ?case by simp
next
  case (Cons t ts f fs)
  from Cons.prems have "f + t \<noteq> 0" by fastforce
  moreover from Cons.prems have "\<forall>i < length ts. fs ! i + ts ! i \<noteq> 0" by fastforce
  ultimately show ?case using Cons.IH by simp
qed

lemma sum_list_take_nonneg:
  "set xs \<subseteq> {0, 1::int} \<Longrightarrow> 0 \<le> sum_list (take k xs)"
  by (rule sum_list_nonneg) (auto dest: in_set_takeD)

lemma sum_list_take_Suc_ge_first:
  assumes "set xs \<subseteq> {0, 1::int}" "xs \<noteq> []"
  shows "xs ! 0 \<le> sum_list (take (Suc i) xs)"
proof -
  obtain x ys where xs: "xs = x # ys" using assms(2) by (cases xs) auto
  have "0 \<le> sum_list (take i ys)"
    using assms(1) xs by (intro sum_list_take_nonneg) auto
  then show ?thesis by (simp add: xs)
qed

text \<open>
  Claim C8 (amended). For equal-length 0/1 flag sequences whose first two flags are not
  both 0 (or which are empty) and a non-empty ground-truth list, \<open>get_rec_prec\<close>
  returns two sequences of the input's length; \<open>rec[i]\<close> is the running sum of the
  true-positive flags up to \<open>i\<close> divided by the ground-truth count, and \<open>prec[i]\<close> is
  that running sum divided by the sum of the running true-positive and false-positive
  sums at \<open>i\<close>.
\<close>

theorem get_rec_prec_running_sums:
  assumes len: "length tp = length fp"
    and tp01: "set tp \<subseteq> {0, 1}" and fp01: "set fp \<subseteq> {0, 1}"
    and gts: "gts \<noteq> []"
    and first: "tp \<noteq> [] \<longrightarrow> tp ! 0 + fp ! 0 \<noteq> 0"
  shows "\<exists>rec prec. get_rec_prec tp fp gts = Inr (rec, prec) \<and>
           length rec = length tp \<and> length prec = length tp \<and>
           (\<forall>i < length tp.
              rec ! i = real_of_int (sum_list (take (Suc i) tp)) / real (length gts) \<and>
              prec ! i = real_of_int (sum_list (take (Suc i) tp)) /
                         real_of_int (sum_list (take (Suc i) tp) + sum_list (take (Suc i) fp)))"
proof -
  let ?ctp = "cumsum_loop 0 tp" and ?cfp = "cumsum_loop 0 fp"
  let ?rec = "map (\<lambda>t. real_of_int t / real (length gts)) ?ctp"
  let ?prec = "map (\<lambda>(t, f). real_of_int t / real_of_int (f + t)) (zip ?ctp ?cfp)"
  have den: "\<forall>i < length ?ctp. ?cfp ! i + ?ctp ! i \<noteq> 0"
  proof (intro allI impI)
    fix i assume "i < length ?ctp"
    then have i: "i < length tp" "i < length fp" using len by (simp_all add: length_cumsum_loop)
    then have ne: "tp \<noteq> []" "fp \<noteq> []" by auto
    have a: "tp ! 0 \<le> sum_list (take (Suc i) tp)" using sum_list_take_Suc_ge_first [OF tp01 ne(1)] .
    have b: "fp ! 0 \<le> sum_list (take (Suc i) fp)" using sum_list_take_Suc_ge_first [OF fp01 ne(2)] .
    have "tp ! 0 \<in> {0, 1}" "fp ! 0 \<in> {0, 1}" using tp01 fp01 ne by (auto simp: subset_iff)
    with first ne have "0 < tp ! 0 + fp ! 0" by auto
    with a b show "?cfp ! i + ?ctp ! i \<noteq> 0" using i by (simp add: nth_cumsum_loop)
  qed
  have r: "rec_loop ?ctp (length gts) = Inr ?rec" using gts by (simp add: rec_loop_ok)
  have p: "prec_loop ?ctp ?cfp = Inr ?prec"
    using den len by (intro prec_loop_ok) (simp_all add: length_cumsum_loop)
  have res: "get_rec_prec tp fp gts = Inr (?rec, ?prec)"
    by (simp add: get_rec_prec_def Let_def r p)
  have vals: "\<forall>i < length tp.
              ?rec ! i = real_of_int (sum_list (take (Suc i) tp)) / real (length gts) \<and>
              ?prec ! i = real_of_int (sum_list (take (Suc i) tp)) /
                         real_of_int (sum_list (take (Suc i) tp) + sum_list (take (Suc i) fp))"
    using len by (simp add: length_cumsum_loop nth_cumsum_loop add.commute)
  show ?thesis using res vals len by (simp add: length_cumsum_loop)
qed

theorem get_rec_prec_running_sums_witness:
  "\<exists>rec prec.
      get_rec_prec [1, 0, 1] [0, 1, 0] [\<lparr>gt_image = ''a'', gt_box = (0, 0, 1, 1), gt_usage = Unused\<rparr>] = Inr (rec, prec) \<and>
      rec ! 1 = 1 \<and> prec ! 1 = 1 / 2"
proof -
  obtain rec prec where
    r: "get_rec_prec [1, 0, 1] [0, 1, 0] [\<lparr>gt_image = ''a'', gt_box = (0, 0, 1, 1), gt_usage = Unused\<rparr>] = Inr (rec, prec)"
    and v: "\<forall>i < length [1, 0, 1::int].
              rec ! i = real_of_int (sum_list (take (Suc i) [1, 0, 1])) /
                        real (length [\<lparr>gt_image = ''a'', gt_box = (0, 0, 1, 1), gt_usage = Unused\<rparr>]) \<and>
              prec ! i = real_of_int (sum_list (take (Suc i) [1, 0, 1])) /
                         real_of_int (sum_list (take (Suc i) [1, 0, 1]) + sum_list (take (Suc i) [0, 1, 0]))"
    using get_rec_prec_running_sums
      [of "[1, 0, 1]" "[0, 1, 0]" "[\<lparr>gt_image = ''a'', gt_box = (0, 0, 1, 1), gt_usage = Unused\<rparr>]"]
    by auto
  from v have "rec ! 1 = 1 \<and> prec ! 1 = 1 / 2" by simp
  with r show ?thesis by blast
qed

text \<open>
  The claim as stated fails when both first flags are 0: the flag sequences \<open>[0]\<close> and
  \<open>[0]\<close> have equal length and hold only 0/1 values, the ground-truth list is not
  empty, and the precision division raises \<open>ZeroDivisionError\<close>.
\<close>

theorem get_rec_prec_zero_flags_counterexample:
  "length [0::int] = length [0::int] \<and> set [0::int] \<subseteq> {0, 1} \<and>
   [\<lparr>gt_image = ''a'', gt_box = (0, 0, 1, 1), gt_usage = Unused\<rparr>] \<noteq> [] \<and>
   get_rec_prec [0] [0] [\<lparr>gt_image = ''a'', gt_box = (0, 0, 1, 1), gt_usage = Unused\<rparr>] = Inl ZeroDivisionError"
  by (simp add: get_rec_prec_def)

section \<open>The matching pass of \<open>calc_AP\<close>\<close>

lemma assign_step_conv:
  "assign_step thr idx pred s =
     (case matched_gt thr pred (gt_records s) of
        Some a \<Rightarrow>
          s\<lparr>gt_records := (gt_records s)[a := (gt_records s ! a)\<lparr>gt_usage := Used\<rparr>],
            true_positive := (true_positive s)[idx := 1],
            true_positive_count := true_positive_count s + 1\<rparr>
      | None \<Rightarrow> s\<lparr>false_positive := (false_positive s)[idx := 1]\<rparr>)"
  by (simp add: assign_step_def matched_gt_def Let_def)

lemma refs_sorted: "sorted_wrt (<) (image_gt_refs store pred)"
  unfolding image_gt_refs_def by (intro sorted_wrt_filter) simp

lemma refs_set:
  "set (image_gt_refs store pred) = {a. a < length store \<and> gt_image (store ! a) = pred_image pred}"
  by (auto simp: image_gt_refs_def)

lemma refs_nth_less:
  "i < j \<Longrightarrow> j < length (image_gt_refs store pred) \<Longrightarrow>
     image_gt_refs store pred ! i < image_gt_refs store pred ! j"
  using refs_sorted by (rule sorted_wrt_nth_less)

lemma refs_nth_less_iff:
  assumes "i < length (image_gt_refs store pred)" "j < length (image_gt_refs store pred)"
  shows "image_gt_refs store pred ! i < image_gt_refs store pred ! j \<longleftrightarrow> i < j"
proof
  assume l: "image_gt_refs store pred ! i < image_gt_refs store pred ! j"
  show "i < j"
  proof (rule ccontr)
    assume "\<not> i < j"
    then consider "i = j" | "j < i" by linarith
    then show False
    proof cases
      case 1 with l show False by simp
    next
      case 2 with refs_nth_less [OF 2 assms(1)] l show False by simp
    qed
  qed
next
  assume "i < j" then show "image_gt_refs store pred ! i < image_gt_refs store pred ! j"
    using assms by (simp add: refs_nth_less)
qed

lemma eligible_in_refs:
  "a < length store \<Longrightarrow> eligible pred (store ! a) \<Longrightarrow>
     \<exists>i < length (image_gt_refs store pred). image_gt_refs store pred ! i = a"
proof -
  assume "a < length store" "eligible pred (store ! a)"
  then have "a \<in> set (image_gt_refs store pred)" by (simp add: refs_set eligible_def)
  then show ?thesis by (simp add: in_set_conv_nth)
qed

lemma refs_nth_in_store:
  "i < length (image_gt_refs store pred) \<Longrightarrow> image_gt_refs store pred ! i < length store"
  using refs_set [of store pred] nth_mem [of i "image_gt_refs store pred"] by auto

lemma iou_at_refs:
  "i < length (image_gt_refs store pred) \<Longrightarrow>
     iou_at pred (map (\<lambda>a. store ! a) (image_gt_refs store pred)) i =
     iou_at pred store (image_gt_refs store pred ! i)"
  by (simp add: iou_at_def)

lemma first_best_refs_fwd:
  assumes "first_best pred (map (\<lambda>a. store ! a) (image_gt_refs store pred)) i"
  shows "first_best pred store (image_gt_refs store pred ! i)"
proof -
  let ?refs = "image_gt_refs store pred"
  let ?cs = "map (\<lambda>a. store ! a) ?refs"
  from assms have i: "i < length ?refs" and el: "eligible pred (store ! (?refs ! i))"
    and le: "\<forall>j < length ?refs. eligible pred (store ! (?refs ! j)) \<longrightarrow> iou_at pred ?cs j \<le> iou_at pred ?cs i"
    and st: "\<forall>j < i. eligible pred (store ! (?refs ! j)) \<longrightarrow> iou_at pred ?cs j < iou_at pred ?cs i"
    by (auto simp: first_best_def)
  have a: "\<forall>b < length store. eligible pred (store ! b) \<longrightarrow> iou_at pred store b \<le> iou_at pred store (?refs ! i)"
  proof (intro allI impI)
    fix b assume b: "b < length store" "eligible pred (store ! b)"
    then obtain j where j: "j < length ?refs" "?refs ! j = b" using eligible_in_refs by blast
    with le b have "iou_at pred ?cs j \<le> iou_at pred ?cs i" by auto
    then show "iou_at pred store b \<le> iou_at pred store (?refs ! i)"
      using i j by (simp add: iou_at_refs)
  qed
  have c: "\<forall>b < ?refs ! i. eligible pred (store ! b) \<longrightarrow> iou_at pred store b < iou_at pred store (?refs ! i)"
  proof (intro allI impI)
    fix b assume b: "b < ?refs ! i" "eligible pred (store ! b)"
    have "b < length store" using b(1) refs_nth_in_store [OF i] by simp
    then obtain j where j: "j < length ?refs" "?refs ! j = b" using b eligible_in_refs by blast
    with b(1) have "j < i" using refs_nth_less_iff [OF j(1) i] by simp
    with st b j have "iou_at pred ?cs j < iou_at pred ?cs i" by auto
    then show "iou_at pred store b < iou_at pred store (?refs ! i)"
      using i j by (simp add: iou_at_refs)
  qed
  show ?thesis
    unfolding first_best_def using refs_nth_in_store [OF i] el a c by blast
qed

lemma first_best_refs_bwd:
  assumes "first_best pred store a"
  shows "\<exists>i < length (image_gt_refs store pred).
           image_gt_refs store pred ! i = a \<and>
           first_best pred (map (\<lambda>a. store ! a) (image_gt_refs store pred)) i"
proof -
  let ?refs = "image_gt_refs store pred"
  let ?cs = "map (\<lambda>a. store ! a) ?refs"
  from assms have a: "a < length store" and el: "eligible pred (store ! a)"
    and le: "\<forall>b < length store. eligible pred (store ! b) \<longrightarrow> iou_at pred store b \<le> iou_at pred store a"
    and st: "\<forall>b < a. eligible pred (store ! b) \<longrightarrow> iou_at pred store b < iou_at pred store a"
    by (auto simp: first_best_def)
  obtain i where i: "i < length ?refs" "?refs ! i = a" using eligible_in_refs [OF a el] by blast
  have l: "\<forall>j < length ?cs. eligible pred (?cs ! j) \<longrightarrow> iou_at pred ?cs j \<le> iou_at pred ?cs i"
  proof (intro allI impI)
    fix j assume j: "j < length ?cs" "eligible pred (?cs ! j)"
    then have "?refs ! j < length store" "eligible pred (store ! (?refs ! j))"
      using refs_nth_in_store by simp_all
    with le have "iou_at pred store (?refs ! j) \<le> iou_at pred store a" by blast
    then show "iou_at pred ?cs j \<le> iou_at pred ?cs i" using i j by (simp add: iou_at_refs)
  qed
  have s: "\<forall>j < i. eligible pred (?cs ! j) \<longrightarrow> iou_at pred ?cs j < iou_at pred ?cs i"
  proof (intro allI impI)
    fix j assume j: "j < i" "eligible pred (?cs ! j)"
    then have jl: "j < length ?refs" using i by simp
    have "?refs ! j < a" using refs_nth_less [OF j(1) i(1)] i by simp
    moreover have "eligible pred (store ! (?refs ! j))" using j jl by simp
    ultimately have "iou_at pred store (?refs ! j) < iou_at pred store a" using st by blast
    then show "iou_at pred ?cs j < iou_at pred ?cs i" using i jl by (simp add: iou_at_refs)
  qed
  have "first_best pred ?cs i"
    unfolding first_best_def using i el l s by simp
  with i show ?thesis by blast
qed

lemma matched_gt_Some_iff:
  "matched_gt thr pred store = Some a \<longleftrightarrow> chosen thr pred store a"
proof
  let ?refs = "image_gt_refs store pred"
  let ?cs = "map (\<lambda>a. store ! a) ?refs"
  assume m: "matched_gt thr pred store = Some a"
  then have ne: "match_gt_box pred ?cs thr \<noteq> - 1" and a: "a = ?refs ! nat (match_gt_box pred ?cs thr)"
    by (auto simp: matched_gt_def Let_def split: if_splits)
  from ne match_gt_box_range [of pred ?cs thr] obtain i where i: "match_gt_box pred ?cs thr = int i" by blast
  then have fb: "first_best pred ?cs i" and pos: "0 < iou_at pred ?cs i" and thr: "thr \<le> iou_at pred ?cs i"
    using match_gt_box_int by blast+
  from fb have il: "i < length ?refs" by (simp add: first_best_def)
  from a i have ai: "a = ?refs ! i" by simp
  show "chosen thr pred store a"
    unfolding chosen_def ai using first_best_refs_fwd [OF fb] pos thr il by (simp add: iou_at_refs)
next
  let ?refs = "image_gt_refs store pred"
  let ?cs = "map (\<lambda>a. store ! a) ?refs"
  assume "chosen thr pred store a"
  then have fb: "first_best pred store a" and pos: "0 < iou_at pred store a" and thr: "thr \<le> iou_at pred store a"
    by (simp_all add: chosen_def)
  from first_best_refs_bwd [OF fb] obtain i where i: "i < length ?refs" "?refs ! i = a" "first_best pred ?cs i"
    by blast
  then have "match_gt_box pred ?cs thr = int i"
    using pos thr by (simp add: match_gt_box_int iou_at_refs)
  then show "matched_gt thr pred store = Some a"
    using i by (simp add: matched_gt_def Let_def)
qed

lemma chosen_unique: "chosen thr pred store a \<Longrightarrow> chosen thr pred store b \<Longrightarrow> a = b"
  using first_best_unique by (auto simp: chosen_def)

lemma matched_gt_props:
  assumes "matched_gt thr pred store = Some a"
  shows "a < length store" "gt_usage (store ! a) = Unused" "gt_image (store ! a) = pred_image pred"
  using assms by (auto simp: matched_gt_Some_iff chosen_def first_best_def eligible_def)

text \<open>Some eligible record with positive IoU exists iff a first best one does.\<close>

lemma first_best_exists:
  assumes "b < length store" "eligible pred (store ! b)" "0 < iou_at pred store b"
  shows "\<exists>a. first_best pred store a \<and> 0 < iou_at pred store a"
proof -
  obtain m x where run: "match_scan pred store 0 (0, - 1) = (m, x)"
    by (cases "match_scan pred store 0 (0, - 1)")
  from match_scan_start [OF run] assms show ?thesis by force
qed

lemma store_assign_step:
  "gt_records (assign_step thr idx pred s) =
     (case matched_gt thr pred (gt_records s) of
        Some a \<Rightarrow> (gt_records s)[a := (gt_records s ! a)\<lparr>gt_usage := Used\<rparr>]
      | None \<Rightarrow> gt_records s)"
  by (simp add: assign_step_conv split: option.splits)

lemma length_store_assign_step:
  "length (gt_records (assign_step thr idx pred s)) = length (gt_records s)"
  by (simp add: store_assign_step split: option.splits)

lemma length_store_matching_loop:
  "length (gt_records (matching_loop thr idx ps s)) = length (gt_records s)"
  by (induction ps arbitrary: idx s) (simp_all add: length_store_assign_step)

lemma matching_loop_snoc:
  "matching_loop thr idx (ps @ [p]) s = assign_step thr (idx + length ps) p (matching_loop thr idx ps s)"
  by (induction ps arbitrary: idx s) simp_all

lemma state_after_0: "state_after thr gts preds 0 = init_state gts preds"
  by (simp add: state_after_def)

lemma state_after_Suc:
  "k < length preds \<Longrightarrow>
     state_after thr gts preds (Suc k) = assign_step thr k (preds ! k) (state_after thr gts preds k)"
  by (simp add: state_after_def take_Suc_conv_app_nth matching_loop_snoc)

lemma state_after_all: "state_after thr gts preds (length preds) = matching_pass thr gts preds"
  by (simp add: state_after_def matching_pass_def)

lemma length_store_state_after:
  "length (gt_records (state_after thr gts preds k)) = length gts"
  by (simp add: state_after_def length_store_matching_loop init_state_def)

lemma usage_after_0: "a < length gts \<Longrightarrow> usage_after thr gts preds 0 a = Unused"
  by (simp add: usage_after_def state_after_0 init_state_def split: prod.splits)

lemma match_at_props:
  assumes "match_at thr gts preds k = Some a"
  shows "a < length gts" "usage_after thr gts preds k a = Unused"
  using matched_gt_props [OF assms [unfolded match_at_def]]
  by (simp_all add: length_store_state_after usage_after_def)

lemma usage_after_Suc_matched:
  assumes "k < length preds" "match_at thr gts preds k = Some a"
  shows "usage_after thr gts preds (Suc k) a = Used"
proof -
  have "a < length (gt_records (state_after thr gts preds k))"
    using match_at_props(1) [OF assms(2)] by (simp add: length_store_state_after)
  then show ?thesis
    using assms by (simp add: usage_after_def state_after_Suc store_assign_step match_at_def)
qed

lemma usage_after_Suc_other:
  assumes "k < length preds" "match_at thr gts preds k \<noteq> Some a"
  shows "usage_after thr gts preds (Suc k) a = usage_after thr gts preds k a"
  using assms
  by (auto simp add: usage_after_def state_after_Suc store_assign_step match_at_def split: option.splits)

lemma used_stays:
  assumes "usage_after thr gts preds j a = Used" "j \<le> k" "k \<le> length preds"
  shows "usage_after thr gts preds k a = Used"
  using assms(2,3)
proof (induction k)
  case 0
  with assms(1) show ?case by simp
next
  case (Suc k)
  show ?case
  proof (cases "j = Suc k")
    case True
    with assms(1) show ?thesis by simp
  next
    case False
    with Suc have IH: "usage_after thr gts preds k a = Used" and k: "k < length preds" by simp_all
    show ?thesis
    proof (cases "match_at thr gts preds k = Some a")
      case True
      then show ?thesis using usage_after_Suc_matched [OF k] by simp
    next
      case False
      then show ?thesis using usage_after_Suc_other [OF k] IH by simp
    qed
  qed
qed

text \<open>
  Claim C5. In one class's matching pass every ground-truth record starts unused; the
  flag of record \<open>a\<close> changes at prediction \<open>k\<close> exactly when prediction \<open>k\<close> is
  matched to \<open>a\<close>, and then it changes from unused to used; and no record is matched
  to two predictions. So each flag flips at most once. (\<open>calc_AP\<close> runs the pass with
  threshold 0.5; the statement holds for every threshold.)
\<close>

theorem usage_flag_flips_once:
  "(\<forall>a < length gts. usage_after thr gts preds 0 a = Unused)
   \<and> (\<forall>k < length preds. \<forall>a < length gts.
        (match_at thr gts preds k = Some a \<longrightarrow>
           usage_after thr gts preds k a = Unused \<and> usage_after thr gts preds (Suc k) a = Used)
      \<and> (match_at thr gts preds k \<noteq> Some a \<longrightarrow>
           usage_after thr gts preds (Suc k) a = usage_after thr gts preds k a))
   \<and> (\<forall>k < length preds. \<forall>a. match_at thr gts preds k = Some a \<longrightarrow> a < length gts)
   \<and> (\<forall>j k a. j < k \<and> k < length preds \<and> match_at thr gts preds j = Some a \<longrightarrow>
        match_at thr gts preds k \<noteq> Some a)"
proof (intro conjI allI impI)
  fix a assume "a < length gts"
  then show "usage_after thr gts preds 0 a = Unused" by (rule usage_after_0)
next
  fix k a assume "k < length preds" "match_at thr gts preds k = Some a"
  then show "usage_after thr gts preds k a = Unused" "usage_after thr gts preds (Suc k) a = Used"
    by (simp_all add: match_at_props usage_after_Suc_matched)
next
  fix k a assume "k < length preds" "match_at thr gts preds k \<noteq> Some a"
  then show "usage_after thr gts preds (Suc k) a = usage_after thr gts preds k a"
    by (rule usage_after_Suc_other)
next
  fix k a assume "match_at thr gts preds k = Some a"
  then show "a < length gts" by (rule match_at_props)
next
  fix j k a assume h: "j < k \<and> k < length preds \<and> match_at thr gts preds j = Some a"
  then have "usage_after thr gts preds (Suc j) a = Used"
    using usage_after_Suc_matched [of j preds thr gts a] by simp
  then have "usage_after thr gts preds k a = Used"
    using h by (intro used_stays [of thr gts preds "Suc j" a k]) simp_all
  then show "match_at thr gts preds k \<noteq> Some a"
    using match_at_props(2) [of thr gts preds k a] by auto
qed

theorem usage_flag_flips_once_witness:
  "match_at (1 / 2) [(''x'', (0, 0, 10, 10))]
     [\<lparr>pred_image = ''x'', pred_box = (0, 0, 10, 10), pred_score = 9 / 10\<rparr>,
      \<lparr>pred_image = ''x'', pred_box = (0, 0, 10, 10), pred_score = 8 / 10\<rparr>] 0 = Some 0
   \<and> usage_after (1 / 2) [(''x'', (0, 0, 10, 10))]
     [\<lparr>pred_image = ''x'', pred_box = (0, 0, 10, 10), pred_score = 9 / 10\<rparr>,
      \<lparr>pred_image = ''x'', pred_box = (0, 0, 10, 10), pred_score = 8 / 10\<rparr>] 0 0 = Unused
   \<and> usage_after (1 / 2) [(''x'', (0, 0, 10, 10))]
     [\<lparr>pred_image = ''x'', pred_box = (0, 0, 10, 10), pred_score = 9 / 10\<rparr>,
      \<lparr>pred_image = ''x'', pred_box = (0, 0, 10, 10), pred_score = 8 / 10\<rparr>] (Suc 0) 0 = Used
   \<and> match_at (1 / 2) [(''x'', (0, 0, 10, 10))]
     [\<lparr>pred_image = ''x'', pred_box = (0, 0, 10, 10), pred_score = 9 / 10\<rparr>,
      \<lparr>pred_image = ''x'', pred_box = (0, 0, 10, 10), pred_score = 8 / 10\<rparr>] 1 \<noteq> Some 0"
proof -
  let ?G = "[(''x'', (0::real, 0::real, 10::real, 10::real))]"
  let ?P = "[\<lparr>pred_image = ''x'', pred_box = (0, 0, 10, 10), pred_score = 9 / 10\<rparr>,
      \<lparr>pred_image = ''x'', pred_box = (0, 0, 10, 10), pred_score = 8 / 10\<rparr>]"
  have m: "match_at (1 / 2) ?G ?P 0 = Some 0"
    by (simp add: match_at_def matched_gt_def state_after_def init_state_def image_gt_refs_def
        match_gt_box_def)
  have "(0::nat) < length ?P" "(0::nat) < length ?G" "(0::nat) < 1 \<and> (1::nat) < length ?P" by simp_all
  with m usage_flag_flips_once [of ?G "1 / 2" ?P] show ?thesis
    by (metis One_nat_def)
qed

lemma finite_used_set: "finite (used_set store)"
  by (simp add: used_set_def)

lemma card_used_set_le: "card (used_set store) \<le> length store"
proof -
  have "used_set store \<subseteq> {..<length store}" by (auto simp: used_set_def)
  then have "card (used_set store) \<le> card {..<length store}" by (intro card_mono) simp_all
  then show ?thesis by simp
qed

lemma used_set_mark:
  "a < length store \<Longrightarrow>
     used_set (store[a := (store ! a)\<lparr>gt_usage := Used\<rparr>]) = insert a (used_set store)"
  by (auto simp: used_set_def nth_list_update)

lemma used_set_assign_step:
  "used_set (gt_records (assign_step thr idx pred s)) =
     (case matched_gt thr pred (gt_records s) of
        Some a \<Rightarrow> insert a (used_set (gt_records s))
      | None \<Rightarrow> used_set (gt_records s))"
  by (auto simp add: store_assign_step used_set_mark dest: matched_gt_props(1) split: option.splits)

lemma matched_gt_not_used:
  "matched_gt thr pred store = Some a \<Longrightarrow> a \<notin> used_set store"
  by (auto simp: used_set_def dest: matched_gt_props(2))

text \<open>The counter equals the number of records marked used.\<close>

lemma count_assign_step:
  assumes "true_positive_count s = card (used_set (gt_records s))"
  shows "true_positive_count (assign_step thr idx pred s) =
           card (used_set (gt_records (assign_step thr idx pred s)))"
proof (cases "matched_gt thr pred (gt_records s)")
  case None
  then show ?thesis using assms by (simp add: used_set_assign_step) (simp add: assign_step_conv)
next
  case (Some a)
  then have "card (used_set (gt_records (assign_step thr idx pred s))) = Suc (card (used_set (gt_records s)))"
    using matched_gt_not_used [OF Some] by (simp add: used_set_assign_step finite_used_set)
  moreover have "true_positive_count (assign_step thr idx pred s) = Suc (true_positive_count s)"
    using Some by (simp add: assign_step_conv)
  ultimately show ?thesis using assms by simp
qed

lemma count_matching_loop:
  "true_positive_count s = card (used_set (gt_records s)) \<Longrightarrow>
     true_positive_count (matching_loop thr idx ps s) =
       card (used_set (gt_records (matching_loop thr idx ps s)))"
  by (induction ps arbitrary: idx s) (simp_all add: count_assign_step)

lemma used_set_init: "used_set (gt_records (init_state gts preds)) = {}"
  by (auto simp: used_set_def init_state_def split: prod.splits)

lemma count_matching_pass:
  "true_positive_count (matching_pass thr gts preds) =
     card (used_set (gt_records (matching_pass thr gts preds)))"
  unfolding matching_pass_def
  by (rule count_matching_loop) (simp add: used_set_init, simp add: init_state_def)

lemma count_le_gts: "true_positive_count (matching_pass thr gts preds) \<le> length gts"
proof -
  have "length (gt_records (matching_pass thr gts preds)) = length gts"
    by (simp add: matching_pass_def length_store_matching_loop init_state_def)
  with card_used_set_le [of "gt_records (matching_pass thr gts preds)"] show ?thesis
    by (simp add: count_matching_pass)
qed

lemma sum_list_update_int:
  "k < length xs \<Longrightarrow> sum_list (xs[k := x]) = sum_list xs + x - (xs ! k :: int)"
proof (induction xs arbitrary: k)
  case Nil
  then show ?case by simp
next
  case (Cons y ys)
  then show ?case by (cases k) simp_all
qed

lemma flags_inv_assign_step:
  assumes "flags_inv n k s" "k < n"
  shows "flags_inv n (Suc k) (assign_step thr k pred s)"
proof (cases "matched_gt thr pred (gt_records s)")
  case None
  then have s': "assign_step thr k pred s = s\<lparr>false_positive := (false_positive s)[k := 1]\<rparr>"
    by (simp add: assign_step_conv)
  show ?thesis
    unfolding s' flags_inv_def using assms
    by (auto simp: flags_inv_def nth_list_update less_Suc_eq)
next
  case (Some a)
  then have s': "assign_step thr k pred s =
      s\<lparr>gt_records := (gt_records s)[a := (gt_records s ! a)\<lparr>gt_usage := Used\<rparr>],
        true_positive := (true_positive s)[k := 1],
        true_positive_count := true_positive_count s + 1\<rparr>"
    by (simp add: assign_step_conv)
  have z: "true_positive s ! k = 0" and l: "k < length (true_positive s)"
    using assms by (auto simp: flags_inv_def)
  have sum: "sum_list ((true_positive s)[k := 1]) = int (true_positive_count s) + 1"
    using assms z by (simp add: sum_list_update_int [OF l] flags_inv_def)
  show ?thesis
    unfolding s' flags_inv_def using assms sum
    by (auto simp: flags_inv_def nth_list_update less_Suc_eq)
qed

lemma flags_inv_state_after:
  "k \<le> length preds \<Longrightarrow> flags_inv (length preds) k (state_after thr gts preds k)"
proof (induction k)
  case 0
  show ?case by (simp add: state_after_0 flags_inv_def init_state_def sum_list_replicate)
next
  case (Suc k)
  then show ?case by (simp add: state_after_Suc flags_inv_assign_step)
qed

lemma flags_inv_matching_pass:
  "flags_inv (length preds) (length preds) (matching_pass thr gts preds)"
  using flags_inv_state_after [of "length preds" preds thr gts] by (simp add: state_after_all)

lemma prefix_sums_exactly_one:
  assumes "length xs = length ys" "\<forall>j < length xs. xs ! j + ys ! j = (1::int)" "k \<le> length xs"
  shows "sum_list (take k xs) + sum_list (take k ys) = int k"
  using assms(3)
proof (induction k)
  case 0
  show ?case by simp
next
  case (Suc k)
  then have k: "k < length xs" "k < length ys" using assms(1) by simp_all
  from assms(2) k have "xs ! k + ys ! k = 1" by simp
  with Suc k show ?case by (simp add: take_Suc_conv_app_nth)
qed

text \<open>
  Claim C9. After the matching loop each prediction index has exactly one of the two
  flags set to 1, so the precision denominator \<open>cumulative_tp[i] + cumulative_fp[i]\<close>
  is \<open>i + 1\<close>, the precision loop of \<open>get_rec_prec\<close> returns without dividing by
  zero, and with no predictions \<open>get_rec_prec\<close> returns two empty sequences.
\<close>

theorem matching_flags_denominator:
  "(let s = matching_pass thr gts preds; tp = true_positive s; fp = false_positive s in
    length tp = length preds \<and> length fp = length preds \<and>
    (\<forall>i < length preds. (tp ! i = 1 \<and> fp ! i = 0) \<or> (tp ! i = 0 \<and> fp ! i = 1)) \<and>
    (\<forall>i < length preds. cumsum_loop 0 fp ! i + cumsum_loop 0 tp ! i = int i + 1) \<and>
    (\<exists>prec. prec_loop (cumsum_loop 0 tp) (cumsum_loop 0 fp) = Inr prec \<and> length prec = length preds) \<and>
    (preds = [] \<longrightarrow> get_rec_prec tp fp (gt_records s) = Inr ([], [])))"
proof -
  let ?s = "matching_pass thr gts preds"
  let ?tp = "true_positive ?s" and ?fp = "false_positive ?s"
  have inv: "flags_inv (length preds) (length preds) ?s" by (rule flags_inv_matching_pass)
  then have ltp: "length ?tp = length preds" and lfp: "length ?fp = length preds"
    and one: "\<forall>i < length preds. (?tp ! i = 1 \<and> ?fp ! i = 0) \<or> (?tp ! i = 0 \<and> ?fp ! i = 1)"
    by (auto simp: flags_inv_def)
  have one': "\<forall>j < length ?tp. ?tp ! j + ?fp ! j = 1" using one ltp by auto
  have cum: "\<forall>i < length preds. cumsum_loop 0 ?fp ! i + cumsum_loop 0 ?tp ! i = int i + 1"
  proof (intro allI impI)
    fix i assume i: "i < length preds"
    have "sum_list (take (Suc i) ?tp) + sum_list (take (Suc i) ?fp) = int (Suc i)"
      using i ltp lfp one' by (intro prefix_sums_exactly_one) simp_all
    then show "cumsum_loop 0 ?fp ! i + cumsum_loop 0 ?tp ! i = int i + 1"
      using i ltp lfp by (simp add: nth_cumsum_loop)
  qed
  have "prec_loop (cumsum_loop 0 ?tp) (cumsum_loop 0 ?fp) =
          Inr (map (\<lambda>(t, f). real_of_int t / real_of_int (f + t)) (zip (cumsum_loop 0 ?tp) (cumsum_loop 0 ?fp)))"
    using cum ltp lfp by (intro prec_loop_ok) (simp_all add: length_cumsum_loop)
  then have pr: "\<exists>prec. prec_loop (cumsum_loop 0 ?tp) (cumsum_loop 0 ?fp) = Inr prec \<and> length prec = length preds"
    using ltp lfp by (simp add: length_cumsum_loop)
  have emp: "preds = [] \<longrightarrow> get_rec_prec ?tp ?fp (gt_records ?s) = Inr ([], [])"
  proof
    assume "preds = []"
    with ltp lfp have "?tp = []" "?fp = []" by simp_all
    then show "get_rec_prec ?tp ?fp (gt_records ?s) = Inr ([], [])"
      by (simp add: get_rec_prec_def)
  qed
  show ?thesis
    unfolding Let_def by (intro conjI ltp lfp one cum pr emp)
qed

theorem matching_flags_denominator_witness:
  "cumsum_loop 0 (false_positive (matching_pass (1 / 2) [(''x'', (0, 0, 10, 10))]
     [\<lparr>pred_image = ''x'', pred_box = (0, 0, 10, 10), pred_score = 9 / 10\<rparr>,
      \<lparr>pred_image = ''x'', pred_box = (0, 0, 10, 10), pred_score = 8 / 10\<rparr>])) ! 1
   + cumsum_loop 0 (true_positive (matching_pass (1 / 2) [(''x'', (0, 0, 10, 10))]
     [\<lparr>pred_image = ''x'', pred_box = (0, 0, 10, 10), pred_score = 9 / 10\<rparr>,
      \<lparr>pred_image = ''x'', pred_box = (0, 0, 10, 10), pred_score = 8 / 10\<rparr>])) ! 1 = 2"
  using matching_flags_denominator [of "1 / 2" "[(''x'', (0, 0, 10, 10))]"
     "[\<lparr>pred_image = ''x'', pred_box = (0, 0, 10, 10), pred_score = 9 / 10\<rparr>,
      \<lparr>pred_image = ''x'', pred_box = (0, 0, 10, 10), pred_score = 8 / 10\<rparr>]"]
  by (simp add: Let_def)

lemma store_le_refl: "store_le s s"
  by (simp add: store_le_def)

lemma store_le_iou: "store_le sh sl \<Longrightarrow> a < length sh \<Longrightarrow> iou_at pred sh a = iou_at pred sl a"
  by (simp add: store_le_def iou_at_def)

lemma store_le_eligible:
  assumes "store_le sh sl" "a < length sh" "eligible pred (sl ! a)"
  shows "eligible pred (sh ! a)"
proof -
  from assms have "gt_usage (sh ! a) \<noteq> Used" by (auto simp: store_le_def eligible_def)
  then have "gt_usage (sh ! a) = Unused" by (cases "gt_usage (sh ! a)") simp_all
  with assms show ?thesis by (auto simp: store_le_def eligible_def)
qed

lemma mark_nth:
  "b < length s \<Longrightarrow>
     s[a := (s ! a)\<lparr>gt_usage := Used\<rparr>] ! b = (if a = b then (s ! b)\<lparr>gt_usage := Used\<rparr> else s ! b)"
  by (cases "a < length s") (auto simp add: nth_list_update)

lemma store_le_mark_low:
  "store_le sh sl \<Longrightarrow> store_le sh (sl[a := (sl ! a)\<lparr>gt_usage := Used\<rparr>])"
  by (auto simp: store_le_def mark_nth)

lemma store_le_mark_both:
  "store_le sh sl \<Longrightarrow>
     store_le (sh[a := (sh ! a)\<lparr>gt_usage := Used\<rparr>]) (sl[a := (sl ! a)\<lparr>gt_usage := Used\<rparr>])"
  by (auto simp: store_le_def mark_nth)

lemma store_le_mark_high:
  "store_le sh sl \<Longrightarrow> gt_usage (sl ! a) = Used \<Longrightarrow>
     store_le (sh[a := (sh ! a)\<lparr>gt_usage := Used\<rparr>]) sl"
  by (auto simp: store_le_def mark_nth)

text \<open>
  A record chosen under the higher threshold that is still unused in the run with the
  lower threshold is chosen there too.
\<close>

lemma chosen_transfer:
  assumes le: "store_le sh sl" and t: "t1 \<le> t2"
    and ch: "chosen t2 pred sh a" and un: "gt_usage (sl ! a) = Unused"
  shows "chosen t1 pred sl a"
proof -
  from ch have fb: "first_best pred sh a" and pos: "0 < iou_at pred sh a" and thr: "t2 \<le> iou_at pred sh a"
    by (simp_all add: chosen_def)
  from fb have a: "a < length sh" and el: "eligible pred (sh ! a)" by (simp_all add: first_best_def)
  from le have len: "length sl = length sh" by (simp add: store_le_def)
  have el_l: "eligible pred (sl ! a)"
    using el un le a by (auto simp: eligible_def store_le_def)
  have iou_a: "iou_at pred sl a = iou_at pred sh a" using store_le_iou [OF le a] by simp
  obtain b where b: "first_best pred sl b" "0 < iou_at pred sl b"
    using first_best_exists [of a sl pred] a len el_l pos iou_a by auto
  from b(1) have bl: "b < length sh" and bel: "eligible pred (sl ! b)" by (simp_all add: first_best_def len)
  have iou_b: "iou_at pred sl b = iou_at pred sh b" using store_le_iou [OF le bl] by simp
  have ab: "iou_at pred sl a \<le> iou_at pred sl b"
    using b(1) el_l a len by (simp add: first_best_def)
  have ba: "iou_at pred sh b \<le> iou_at pred sh a"
    using fb store_le_eligible [OF le bl bel] bl by (simp add: first_best_def)
  have eq: "iou_at pred sh a = iou_at pred sh b" using ab ba iou_a iou_b by simp
  have "a = b"
  proof (rule ccontr)
    assume "a \<noteq> b"
    then consider "b < a" | "a < b" by linarith
    then show False
    proof cases
      case 1
      with fb store_le_eligible [OF le bl bel] have "iou_at pred sh b < iou_at pred sh a"
        by (simp add: first_best_def)
      with eq show False by simp
    next
      case 2
      with b(1) el_l have "iou_at pred sl a < iou_at pred sl b" by (simp add: first_best_def)
      with eq iou_a iou_b show False by simp
    qed
  qed
  with b thr t iou_a show ?thesis by (simp add: chosen_def)
qed

lemma store_le_assign_step:
  assumes le: "store_le (gt_records sh) (gt_records sl)" and t: "t1 \<le> t2"
  shows "store_le (gt_records (assign_step t2 i pred sh)) (gt_records (assign_step t1 j pred sl))"
proof (cases "matched_gt t2 pred (gt_records sh)")
  case None
  then show ?thesis
    using le by (simp add: store_assign_step store_le_mark_low split: option.splits)
next
  case (Some a)
  then have ch: "chosen t2 pred (gt_records sh) a" by (simp add: matched_gt_Some_iff)
  show ?thesis
  proof (cases "gt_usage (gt_records sl ! a)")
    case Unused
    from chosen_transfer [OF le t ch Unused] have "matched_gt t1 pred (gt_records sl) = Some a"
      by (simp add: matched_gt_Some_iff)
    with Some le show ?thesis by (simp add: store_assign_step store_le_mark_both)
  next
    case Used
    with le have h: "store_le ((gt_records sh)[a := (gt_records sh ! a)\<lparr>gt_usage := Used\<rparr>]) (gt_records sl)"
      by (rule store_le_mark_high)
    then show ?thesis
      using Some by (simp add: store_assign_step store_le_mark_low split: option.splits)
  qed
qed

lemma store_le_matching_loop:
  "store_le (gt_records sh) (gt_records sl) \<Longrightarrow> t1 \<le> t2 \<Longrightarrow>
     store_le (gt_records (matching_loop t2 i ps sh)) (gt_records (matching_loop t1 j ps sl))"
  by (induction ps arbitrary: sh sl i j) (simp_all add: store_le_assign_step)

lemma store_le_used_set: "store_le sh sl \<Longrightarrow> used_set sh \<subseteq> used_set sl"
  by (auto simp: store_le_def used_set_def)

lemma sum_true_positive_count:
  "sum_list (true_positive (matching_pass thr gts preds)) =
     int (true_positive_count (matching_pass thr gts preds))"
  using flags_inv_matching_pass [of preds thr gts] by (simp add: flags_inv_def)

text \<open>
  Claim C7. For fixed ground-truth records and a fixed prediction list, the matching
  pass with a higher IoU threshold produces at most as many true positives as the pass
  with a lower threshold, both as the counter and as the sum of the true-positive flags.
\<close>

theorem threshold_monotone:
  assumes "t1 \<le> t2"
  shows "true_positive_count (matching_pass t2 gts preds) \<le> true_positive_count (matching_pass t1 gts preds)
       \<and> sum_list (true_positive (matching_pass t2 gts preds)) \<le> sum_list (true_positive (matching_pass t1 gts preds))"
proof -
  have "store_le (gt_records (matching_pass t2 gts preds)) (gt_records (matching_pass t1 gts preds))"
    unfolding matching_pass_def using assms by (intro store_le_matching_loop store_le_refl)
  then have "used_set (gt_records (matching_pass t2 gts preds)) \<subseteq> used_set (gt_records (matching_pass t1 gts preds))"
    by (rule store_le_used_set)
  then have "card (used_set (gt_records (matching_pass t2 gts preds))) \<le> card (used_set (gt_records (matching_pass t1 gts preds)))"
    by (intro card_mono finite_used_set)
  then have c: "true_positive_count (matching_pass t2 gts preds) \<le> true_positive_count (matching_pass t1 gts preds)"
    by (simp add: count_matching_pass)
  then show ?thesis by (simp add: sum_true_positive_count)
qed

theorem threshold_monotone_witness:
  "(1 / 2 :: real) \<le> 9 / 10
   \<and> true_positive_count (matching_pass (9 / 10) [(''x'', (0, 0, 10, 20))]
        [\<lparr>pred_image = ''x'', pred_box = (0, 0, 10, 10), pred_score = 9 / 10\<rparr>])
     \<le> true_positive_count (matching_pass (1 / 2) [(''x'', (0, 0, 10, 20))]
        [\<lparr>pred_image = ''x'', pred_box = (0, 0, 10, 10), pred_score = 9 / 10\<rparr>])"
proof -
  have h: "(1 / 2 :: real) \<le> 9 / 10" by simp
  from threshold_monotone [OF h] h show ?thesis by blast
qed

section \<open>The AP value of one class\<close>

lemma spec_envelope_bounds:
  "(\<forall>x \<in> set xs. 0 \<le> x \<and> x \<le> 1) \<Longrightarrow> (\<forall>x \<in> set (spec_envelope xs). 0 \<le> x \<and> x \<le> 1)"
proof (induction xs rule: spec_envelope.induct)
  case 1
  then show ?case by simp
next
  case (2 x)
  then show ?case by simp
next
  case (3 x y ys)
  let ?zs = "spec_envelope (y # ys)"
  from 3 have zs: "\<forall>z \<in> set ?zs. 0 \<le> z \<and> z \<le> 1" by simp
  have "?zs \<noteq> []" using length_spec_envelope [of "y # ys"] by auto
  then have "hd ?zs \<in> set ?zs" by simp
  with zs have h: "0 \<le> hd ?zs \<and> hd ?zs \<le> 1" by blast
  from 3(2) have x: "0 \<le> x \<and> x \<le> 1" by simp
  show ?case using zs h x by (auto simp: Let_def)
qed

lemma telescope:
  "0 < (n::nat) \<Longrightarrow> (\<Sum>i \<in> {1..<n}. f i - f (i - 1)) = f (n - 1) - (f 0 :: real)"
proof (induction n)
  case 0
  then show ?case by simp
next
  case (Suc n)
  show ?case
  proof (cases "n = 0")
    case True
    then show ?thesis by simp
  next
    case False
    then have "(\<Sum>i \<in> {1..<n}. f i - f (i - 1)) = f (n - 1) - f 0" using Suc.IH by simp
    moreover have "{1..<Suc n} = insert n {1..<n}" using False by auto
    ultimately show ?thesis by simp
  qed
qed

lemma spec_ap_bounds:
  assumes srt: "sorted mrec" and ne: "mrec \<noteq> []"
    and env: "\<forall>i < length mrec. 0 \<le> e ! i \<and> e ! i \<le> 1"
  shows "0 \<le> spec_ap mrec e \<and> spec_ap mrec e \<le> mrec ! (length mrec - 1) - mrec ! 0"
proof -
  let ?n = "length mrec"
  let ?S = "{i \<in> {1..<?n}. mrec ! i \<noteq> mrec ! (i - 1)}"
  let ?d = "\<lambda>i. mrec ! i - mrec ! (i - 1)"
  have d: "0 \<le> ?d i" if "i \<in> {1..<?n}" for i
    using that srt by (simp add: sorted_iff_nth_mono)
  have lo: "0 \<le> spec_ap mrec e"
    unfolding spec_ap_def using d env by (intro sum_nonneg mult_nonneg_nonneg) auto
  have "spec_ap mrec e \<le> (\<Sum>i \<in> ?S. ?d i)"
    unfolding spec_ap_def
  proof (rule sum_mono)
    fix i assume i: "i \<in> ?S"
    then have "0 \<le> ?d i" "e ! i \<le> 1" using d env by auto
    then show "?d i * e ! i \<le> ?d i" by (simp add: mult_left_le)
  qed
  also have "\<dots> \<le> (\<Sum>i \<in> {1..<?n}. ?d i)"
    using d by (intro sum_mono2) auto
  also have "\<dots> = mrec ! (?n - 1) - mrec ! 0"
    using ne by (intro telescope) simp
  finally show ?thesis using lo by simp
qed

lemma cumsum_loop_sorted:
  "(\<forall>x \<in> set xs. 0 \<le> x) \<Longrightarrow> sorted (cumsum_loop c xs) \<and> (\<forall>y \<in> set (cumsum_loop c xs). c \<le> y)"
proof (induction xs arbitrary: c)
  case Nil
  then show ?case by simp
next
  case (Cons x xs)
  then have IH: "sorted (cumsum_loop (c + x) xs)" "\<forall>y \<in> set (cumsum_loop (c + x) xs). c + x \<le> y"
    by simp_all
  from Cons.prems have "0 \<le> x" by simp
  with IH show ?case by (auto simp: add.commute)
qed

lemma cumsum_loop_upper:
  "(\<forall>x \<in> set xs. 0 \<le> x) \<Longrightarrow> \<forall>y \<in> set (cumsum_loop c xs). y \<le> c + sum_list xs"
proof (induction xs arbitrary: c)
  case Nil
  then show ?case by simp
next
  case (Cons x xs)
  then have IH: "\<forall>y \<in> set (cumsum_loop (c + x) xs). y \<le> c + x + sum_list xs" by simp
  have "0 \<le> sum_list xs" using Cons.prems by (intro sum_list_nonneg) simp
  with IH show ?case by auto
qed

lemma flags_nonneg:
  "\<forall>x \<in> set (true_positive (matching_pass thr gts preds)). 0 \<le> x"
  "\<forall>x \<in> set (false_positive (matching_pass thr gts preds)). 0 \<le> x"
proof -
  let ?s = "matching_pass thr gts preds"
  have inv: "flags_inv (length preds) (length preds) ?s" by (rule flags_inv_matching_pass)
  then have l: "length (true_positive ?s) = length preds" "length (false_positive ?s) = length preds"
    and one: "\<And>i. i < length preds \<Longrightarrow>
        (true_positive ?s ! i = 1 \<and> false_positive ?s ! i = 0) \<or>
        (true_positive ?s ! i = 0 \<and> false_positive ?s ! i = 1)"
    by (auto simp: flags_inv_def)
  show "\<forall>x \<in> set (true_positive ?s). 0 \<le> x"
  proof
    fix x assume "x \<in> set (true_positive ?s)"
    then obtain i where "i < length preds" "x = true_positive ?s ! i"
      using l by (auto simp: in_set_conv_nth)
    with one [of i] show "0 \<le> x" by auto
  qed
  show "\<forall>x \<in> set (false_positive ?s). 0 \<le> x"
  proof
    fix x assume "x \<in> set (false_positive ?s)"
    then obtain i where "i < length preds" "x = false_positive ?s ! i"
      using l by (auto simp: in_set_conv_nth)
    with one [of i] show "0 \<le> x" by auto
  qed
qed

lemma ratio_bounds:
  assumes "0 \<le> t" "0 \<le> f"
  shows "0 \<le> real_of_int t / real_of_int (f + t) \<and> real_of_int t / real_of_int (f + t) \<le> 1"
proof (cases "f + t = 0")
  case True
  then show ?thesis by simp
next
  case False
  with assms have "0 < real_of_int (f + t)" "real_of_int t \<le> real_of_int (f + t)" by simp_all
  with assms show ?thesis by (simp add: divide_le_eq)
qed

lemma length_store_matching_pass: "length (gt_records (matching_pass thr gts preds)) = length gts"
  by (simp add: matching_pass_def length_store_matching_loop init_state_def)

lemma matching_pass_denominators:
  "\<forall>i < length preds.
     cumsum_loop 0 (false_positive (matching_pass thr gts preds)) ! i +
     cumsum_loop 0 (true_positive (matching_pass thr gts preds)) ! i = int i + 1"
proof (intro allI impI)
  let ?s = "matching_pass thr gts preds"
  let ?tp = "true_positive ?s" and ?fp = "false_positive ?s"
  fix i assume i: "i < length preds"
  have inv: "flags_inv (length preds) (length preds) ?s" by (rule flags_inv_matching_pass)
  then have ltp: "length ?tp = length preds" and lfp: "length ?fp = length preds"
    and one: "\<forall>j < length ?tp. ?tp ! j + ?fp ! j = 1"
    by (auto simp: flags_inv_def)
  have "sum_list (take (Suc i) ?tp) + sum_list (take (Suc i) ?fp) = int (Suc i)"
    using i ltp lfp one by (intro prefix_sums_exactly_one) simp_all
  then show "cumsum_loop 0 ?fp ! i + cumsum_loop 0 ?tp ! i = int i + 1"
    using i ltp lfp by (simp add: nth_cumsum_loop)
qed

lemma get_rec_prec_matching_pass:
  assumes "gts \<noteq> []"
  shows "get_rec_prec (true_positive (matching_pass thr gts preds))
           (false_positive (matching_pass thr gts preds)) (gt_records (matching_pass thr gts preds)) =
         Inr (map (\<lambda>t. real_of_int t / real (length gts))
                (cumsum_loop 0 (true_positive (matching_pass thr gts preds))),
              map (\<lambda>(t, f). real_of_int t / real_of_int (f + t))
                (zip (cumsum_loop 0 (true_positive (matching_pass thr gts preds)))
                     (cumsum_loop 0 (false_positive (matching_pass thr gts preds)))))"
proof -
  let ?s = "matching_pass thr gts preds"
  let ?tp = "true_positive ?s" and ?fp = "false_positive ?s"
  have inv: "flags_inv (length preds) (length preds) ?s" by (rule flags_inv_matching_pass)
  then have ltp: "length ?tp = length preds" and lfp: "length ?fp = length preds"
    by (auto simp: flags_inv_def)
  have den: "\<forall>i < length (cumsum_loop 0 ?tp). cumsum_loop 0 ?fp ! i + cumsum_loop 0 ?tp ! i \<noteq> 0"
    using matching_pass_denominators [of preds thr gts] ltp by (simp add: length_cumsum_loop)
  have p: "prec_loop (cumsum_loop 0 ?tp) (cumsum_loop 0 ?fp) =
          Inr (map (\<lambda>(t, f). real_of_int t / real_of_int (f + t)) (zip (cumsum_loop 0 ?tp) (cumsum_loop 0 ?fp)))"
    using den ltp lfp by (intro prec_loop_ok) (simp_all add: length_cumsum_loop)
  have r: "rec_loop (cumsum_loop 0 ?tp) (length (gt_records ?s)) =
          Inr (map (\<lambda>t. real_of_int t / real (length gts)) (cumsum_loop 0 ?tp))"
    using assms by (simp add: rec_loop_ok length_store_matching_pass)
  show ?thesis by (simp add: get_rec_prec_def Let_def r p)
qed

text \<open>The AP Integrator on a curve with non-decreasing recall and all values in [0, 1].\<close>

lemma voc_ap_bounds:
  assumes srt: "sorted rec" and r01: "\<forall>r \<in> set rec. 0 \<le> r \<and> r \<le> 1"
    and p01: "\<forall>p \<in> set prec. 0 \<le> p \<and> p \<le> 1" and len: "length prec = length rec"
  shows "\<exists>ap mrec mpre rest. voc_ap rec prec = (Inr (ap, mrec, mpre), rest) \<and> 0 \<le> ap \<and> ap \<le> 1"
proof -
  define m where "m = 0 # rec @ [1]"
  define e where "e = spec_envelope (0 # prec @ [0])"
  have "fst (voc_ap rec prec) = Inr (spec_ap m e, m, e)"
    unfolding m_def e_def using len by (intro voc_ap_result) simp
  then have v: "voc_ap rec prec = (Inr (spec_ap m e, m, e), snd (voc_ap rec prec))"
    by (metis prod.collapse)
  have sm: "sorted m" using srt r01 by (simp add: m_def sorted_append)
  have ne: "m \<noteq> []" by (simp add: m_def)
  have first: "m ! 0 = 0" by (simp add: m_def)
  have last: "m ! (length m - 1) = 1" by (simp add: m_def nth_append)
  have "\<forall>x \<in> set (0 # prec @ [0]). 0 \<le> x \<and> x \<le> 1" using p01 by simp
  then have e01: "\<forall>x \<in> set e. 0 \<le> x \<and> x \<le> 1" unfolding e_def by (rule spec_envelope_bounds)
  have le: "length e = length m" using len by (simp add: e_def m_def length_spec_envelope)
  have env: "\<forall>i < length m. 0 \<le> e ! i \<and> e ! i \<le> 1"
  proof (intro allI impI)
    fix i assume "i < length m"
    then have "e ! i \<in> set e" using le by simp
    with e01 show "0 \<le> e ! i \<and> e ! i \<le> 1" by blast
  qed
  from spec_ap_bounds [OF sm ne env] have "0 \<le> spec_ap m e \<and> spec_ap m e \<le> 1"
    unfolding first last by simp
  with v show ?thesis by blast
qed

text \<open>The curves that \<open>get_rec_prec\<close> builds from the flags of the matching pass.\<close>

lemma matching_pass_curves:
  assumes "gts \<noteq> []"
  shows "\<exists>rec prec.
           get_rec_prec (true_positive (matching_pass thr gts preds))
             (false_positive (matching_pass thr gts preds)) (gt_records (matching_pass thr gts preds)) =
             Inr (rec, prec) \<and>
           sorted rec \<and> (\<forall>r \<in> set rec. 0 \<le> r \<and> r \<le> 1) \<and>
           (\<forall>p \<in> set prec. 0 \<le> p \<and> p \<le> 1) \<and> length prec = length rec"
proof -
  define s where "s = matching_pass thr gts preds"
  define ctp where "ctp = cumsum_loop 0 (true_positive s)"
  define cfp where "cfp = cumsum_loop 0 (false_positive s)"
  define n where "n = length gts"
  define rec where "rec = map (\<lambda>t. real_of_int t / real n) ctp"
  define prec where "prec = map (\<lambda>(t, f). real_of_int t / real_of_int (f + t)) (zip ctp cfp)"
  have n: "0 < n" using assms by (simp add: n_def)
  have inv: "flags_inv (length preds) (length preds) s"
    unfolding s_def by (rule flags_inv_matching_pass)
  then have ltp: "length (true_positive s) = length preds" and lfp: "length (false_positive s) = length preds"
    by (auto simp: flags_inv_def)
  have lc: "length ctp = length preds" "length cfp = length preds"
    using ltp lfp by (simp_all add: ctp_def cfp_def length_cumsum_loop)
  have grp: "get_rec_prec (true_positive s) (false_positive s) (gt_records s) = Inr (rec, prec)"
    unfolding s_def rec_def prec_def ctp_def cfp_def n_def using assms by (rule get_rec_prec_matching_pass)
  have nn_tp: "\<forall>x \<in> set (true_positive s). 0 \<le> x" and nn_fp: "\<forall>x \<in> set (false_positive s). 0 \<le> x"
    unfolding s_def by (rule flags_nonneg)+
  have ctp_sorted: "sorted ctp" and ctp_lo: "\<forall>y \<in> set ctp. 0 \<le> y"
    unfolding ctp_def using cumsum_loop_sorted [OF nn_tp, of 0] by simp_all
  have cfp_lo: "\<forall>y \<in> set cfp. 0 \<le> y"
    unfolding cfp_def using cumsum_loop_sorted [OF nn_fp, of 0] by simp
  have "sum_list (true_positive s) = int (true_positive_count s)"
    unfolding s_def by (rule sum_true_positive_count)
  also have "\<dots> \<le> int n" unfolding s_def n_def using count_le_gts [of thr gts preds] by simp
  finally have tot: "sum_list (true_positive s) \<le> int n" .
  have ctp_hi: "\<forall>y \<in> set ctp. y \<le> int n"
  proof
    fix y assume "y \<in> set ctp"
    then have "y \<le> 0 + sum_list (true_positive s)"
      unfolding ctp_def using cumsum_loop_upper [OF nn_tp, of 0] by blast
    with tot show "y \<le> int n" by simp
  qed
  have rec_sorted: "sorted rec"
    unfolding sorted_iff_nth_mono
  proof (intro allI impI)
    fix i j assume ij: "i \<le> j" "j < length rec"
    then have j: "j < length ctp" by (simp add: rec_def)
    with ij have "ctp ! i \<le> ctp ! j" using ctp_sorted by (simp add: sorted_iff_nth_mono)
    then have "real_of_int (ctp ! i) / real n \<le> real_of_int (ctp ! j) / real n"
      by (simp add: divide_right_mono)
    then show "rec ! i \<le> rec ! j" using ij j by (simp add: rec_def)
  qed
  have rec_01: "\<forall>r \<in> set rec. 0 \<le> r \<and> r \<le> 1"
  proof
    fix r assume "r \<in> set rec"
    then obtain y where y: "y \<in> set ctp" "r = real_of_int y / real n" unfolding rec_def by auto
    with ctp_lo ctp_hi have "0 \<le> y" "y \<le> int n" by auto
    then have "0 \<le> real_of_int y" "real_of_int y \<le> real n" by simp_all
    with n y(2) show "0 \<le> r \<and> r \<le> 1" by (simp add: divide_le_eq)
  qed
  have prec_01: "\<forall>p \<in> set prec. 0 \<le> p \<and> p \<le> 1"
  proof
    fix p assume "p \<in> set prec"
    then obtain q where q: "q \<in> set (zip ctp cfp)" "p = (\<lambda>(t, f). real_of_int t / real_of_int (f + t)) q"
      unfolding prec_def by auto
    obtain t f where tf: "q = (t, f)" by (cases q)
    with q(1) have "t \<in> set ctp" "f \<in> set cfp" by (auto dest: set_zip_leftD set_zip_rightD)
    with ctp_lo cfp_lo have "0 \<le> t" "0 \<le> f" by auto
    then show "0 \<le> p \<and> p \<le> 1" unfolding q(2) tf using ratio_bounds by simp
  qed
  have len: "length prec = length rec" using lc by (simp add: rec_def prec_def)
  from grp rec_sorted rec_01 prec_01 len show ?thesis unfolding s_def by blast
qed

lemma calc_AP_bounds:
  assumes "gts \<noteq> []"
  shows "\<exists>ap n. calc_AP gts preds = Inr (ap, n) \<and> 0 \<le> ap \<and> ap \<le> 1"
proof -
  define s where "s = matching_pass (1 / 2) gts preds"
  from matching_pass_curves [OF assms, of "1 / 2" preds] obtain rec prec where
    grp: "get_rec_prec (true_positive s) (false_positive s) (gt_records s) = Inr (rec, prec)"
    and c: "sorted rec" "\<forall>r \<in> set rec. 0 \<le> r \<and> r \<le> 1" "\<forall>p \<in> set prec. 0 \<le> p \<and> p \<le> 1"
      "length prec = length rec"
    unfolding s_def by blast
  from voc_ap_bounds [OF c] obtain ap mrec mpre rest where
    v: "voc_ap rec prec = (Inr (ap, mrec, mpre), rest)" and b: "0 \<le> ap \<and> ap \<le> 1"
    by blast
  have "calc_AP gts preds = Inr (ap, true_positive_count s)"
    unfolding calc_AP_def Let_def s_def [symmetric] by (simp add: grp v)
  with b show ?thesis by blast
qed

text \<open>
  Claim C6. For a class with at least one ground-truth record and any list of
  predictions, \<open>calc_AP\<close> returns, and the AP it returns lies in the closed interval
  from 0 to 1. (No assumption on the boxes is needed.)
\<close>

theorem calc_AP_unit_interval:
  assumes "gts \<noteq> []"
  shows "\<exists>ap n. calc_AP gts preds = Inr (ap, n) \<and> 0 \<le> ap \<and> ap \<le> 1"
  using assms by (rule calc_AP_bounds)

theorem calc_AP_unit_interval_witness:
  "[(''x'', (0::real, 0::real, 10::real, 10::real))] \<noteq> [] \<and>
   (\<exists>ap n. calc_AP [(''x'', (0, 0, 10, 10))]
       [\<lparr>pred_image = ''x'', pred_box = (0, 0, 10, 10), pred_score = 9 / 10\<rparr>] = Inr (ap, n)
     \<and> 0 \<le> ap \<and> ap \<le> 1)"
  using calc_AP_unit_interval [of "[(''x'', (0, 0, 10, 10))]"
      "[\<lparr>pred_image = ''x'', pred_box = (0, 0, 10, 10), pred_score = 9 / 10\<rparr>]"]
  by simp

section \<open>The Aggregator\<close>

lemma alist_sum_card:
  "distinct (map fst al) \<Longrightarrow>
     sum_list (map snd al) = (\<Sum>k \<in> fst ` set al. the (map_of al k)) \<and>
     length al = card (fst ` set al)"
proof (induction al)
  case Nil
  then show ?case by simp
next
  case (Cons p al)
  obtain k v where p: "p = (k, v)" by (cases p)
  from Cons.prems have k: "k \<notin> fst ` set al" and d: "distinct (map fst al)" by (simp_all add: p)
  from Cons.IH [OF d] have IH: "sum_list (map snd al) = (\<Sum>k \<in> fst ` set al. the (map_of al k))"
    "length al = card (fst ` set al)" by simp_all
  have "(\<Sum>k' \<in> fst ` set al. the (map_of (p # al) k')) = (\<Sum>k' \<in> fst ` set al. the (map_of al k'))"
    using k by (intro sum.cong) (auto simp: p)
  then have "(\<Sum>k' \<in> fst ` set (p # al). the (map_of (p # al) k')) = v + sum_list (map snd al)"
    using k IH(1) by (simp add: p)
  moreover have "card (fst ` set (p # al)) = Suc (length al)"
    using k IH(2) by (simp add: p)
  ultimately show ?case by (simp add: p)
qed

lemma calc_AP_total: "gts \<noteq> [] \<Longrightarrow> \<exists>ap n. calc_AP gts preds = Inr (ap, n)"
  using calc_AP_bounds by blast

lemma class_loop_ok:
  assumes "\<forall>k \<in> set cs. gtm k \<noteq> None \<and> (pm k \<noteq> None \<longrightarrow> gtm k \<noteq> Some [])"
  shows "\<exists>APs' cnt'. class_loop gtm pm cs (APs, cnt) = Inr (APs', cnt') \<and>
           fst ` set APs' = fst ` set APs \<union> set cs \<and>
           (distinct (map fst APs) \<longrightarrow> distinct (map fst APs')) \<and>
           (\<forall>c. pm c = None \<longrightarrow>
              (c \<in> set cs \<longrightarrow> map_of APs' c = Some 0) \<and>
              (c \<notin> set cs \<longrightarrow> map_of APs' c = map_of APs c) \<and>
              map_of cnt' c = map_of cnt c)"
  using assms
proof (induction cs arbitrary: APs cnt)
  case Nil
  then show ?case by simp
next
  case (Cons c0 cs)
  from Cons.prems obtain g where g: "gtm c0 = Some g" by auto
  from Cons.prems have rest: "\<forall>k \<in> set cs. gtm k \<noteq> None \<and> (pm k \<noteq> None \<longrightarrow> gtm k \<noteq> Some [])"
    by simp
  show ?case
  proof (cases "pm c0")
    case None
    let ?A = "AList.update c0 0 APs"
    from Cons.IH [OF rest, of ?A cnt] obtain APs' cnt' where
      r: "class_loop gtm pm cs (?A, cnt) = Inr (APs', cnt')"
      and keys: "fst ` set APs' = fst ` set ?A \<union> set cs"
      and dist: "distinct (map fst ?A) \<longrightarrow> distinct (map fst APs')"
      and vals: "\<forall>c. pm c = None \<longrightarrow>
              (c \<in> set cs \<longrightarrow> map_of APs' c = Some 0) \<and>
              (c \<notin> set cs \<longrightarrow> map_of APs' c = map_of ?A c) \<and>
              map_of cnt' c = map_of cnt c"
      by blast
    have 1: "class_loop gtm pm (c0 # cs) (APs, cnt) = Inr (APs', cnt')"
      using g None r by simp
    have 2: "fst ` set APs' = fst ` set APs \<union> set (c0 # cs)"
      using keys by (auto simp: dom_update)
    have 3: "distinct (map fst APs) \<longrightarrow> distinct (map fst APs')"
      using dist by (simp add: distinct_update)
    have 4: "\<forall>c. pm c = None \<longrightarrow>
              (c \<in> set (c0 # cs) \<longrightarrow> map_of APs' c = Some 0) \<and>
              (c \<notin> set (c0 # cs) \<longrightarrow> map_of APs' c = map_of APs c) \<and>
              map_of cnt' c = map_of cnt c"
    proof (intro allI impI conjI)
      fix c assume c: "pm c = None" "c \<in> set (c0 # cs)"
      show "map_of APs' c = Some 0"
      proof (cases "c \<in> set cs")
        case True
        with vals c show ?thesis by blast
      next
        case False
        with c have "c = c0" by simp
        with vals c False show ?thesis by (simp add: update_conv')
      qed
    next
      fix c assume c: "pm c = None" "c \<notin> set (c0 # cs)"
      with vals show "map_of APs' c = map_of APs c" by (simp add: update_conv')
    next
      fix c assume "pm c = None"
      with vals show "map_of cnt' c = map_of cnt c" by blast
    qed
    from 1 2 3 4 show ?thesis by blast
  next
    case (Some preds)
    with Cons.prems g have "g \<noteq> []" by auto
    then obtain ap n where ap: "calc_AP g preds = Inr (ap, n)" using calc_AP_total by blast
    let ?A = "AList.update c0 ap APs" and ?C = "AList.update c0 n cnt"
    from Cons.IH [OF rest, of ?A ?C] obtain APs' cnt' where
      r: "class_loop gtm pm cs (?A, ?C) = Inr (APs', cnt')"
      and keys: "fst ` set APs' = fst ` set ?A \<union> set cs"
      and dist: "distinct (map fst ?A) \<longrightarrow> distinct (map fst APs')"
      and vals: "\<forall>c. pm c = None \<longrightarrow>
              (c \<in> set cs \<longrightarrow> map_of APs' c = Some 0) \<and>
              (c \<notin> set cs \<longrightarrow> map_of APs' c = map_of ?A c) \<and>
              map_of cnt' c = map_of ?C c"
      by blast
    have 1: "class_loop gtm pm (c0 # cs) (APs, cnt) = Inr (APs', cnt')"
      using g Some ap r by simp
    have 2: "fst ` set APs' = fst ` set APs \<union> set (c0 # cs)"
      using keys by (auto simp: dom_update)
    have 3: "distinct (map fst APs) \<longrightarrow> distinct (map fst APs')"
      using dist by (simp add: distinct_update)
    have 4: "\<forall>c. pm c = None \<longrightarrow>
              (c \<in> set (c0 # cs) \<longrightarrow> map_of APs' c = Some 0) \<and>
              (c \<notin> set (c0 # cs) \<longrightarrow> map_of APs' c = map_of APs c) \<and>
              map_of cnt' c = map_of cnt c"
    proof (intro allI impI conjI)
      fix c assume c: "pm c = None" "c \<in> set (c0 # cs)"
      with Some have "c \<noteq> c0" by auto
      with c have "c \<in> set cs" by simp
      with vals c show "map_of APs' c = Some 0" by blast
    next
      fix c assume c: "pm c = None" "c \<notin> set (c0 # cs)"
      with vals show "map_of APs' c = map_of APs c" by (simp add: update_conv')
    next
      fix c assume c: "pm c = None"
      with Some have "c \<noteq> c0" by auto
      with vals c show "map_of cnt' c = map_of cnt c" by (simp add: update_conv')
    qed
    from 1 2 3 4 show ?thesis by blast
  qed
qed

text \<open>
  Claim C3 (amended). When every class of the vocabulary has an entry in the
  ground-truth dictionary (and no class with predictions has an empty ground-truth
  list), \<open>compute_mAP\<close> completes; a vocabulary class without prediction records gets
  AP 0 and no true-positive count (matching is not run for it), and mAP is the
  arithmetic mean of the AP values of all vocabulary classes, that class included,
  times 100.
\<close>

theorem compute_mAP_no_predictions:
  assumes c: "c \<in> set class_names" and np: "pred_classes_records c = None"
    and ok: "\<forall>k \<in> set class_names. gt_classes_records k \<noteq> None \<and>
               (pred_classes_records k \<noteq> None \<longrightarrow> gt_classes_records k \<noteq> Some [])"
  shows "\<exists>APs cnt mAP.
           compute_mAP gt_classes_records pred_classes_records class_names = Inr (APs, cnt, Some mAP) \<and>
           map_of APs c = Some 0 \<and> map_of cnt c = None \<and>
           distinct (map fst APs) \<and> fst ` set APs = set class_names \<and>
           mAP = (\<Sum>k \<in> set class_names. the (map_of APs k)) / real (card (set class_names)) * 100"
proof -
  from class_loop_ok [OF ok, of "[]" "[]"] obtain APs cnt where
    r: "class_loop gt_classes_records pred_classes_records class_names ([], []) = Inr (APs, cnt)"
    and keys: "fst ` set APs = set class_names"
    and dist: "distinct (map fst APs)"
    and vals: "\<forall>c. pred_classes_records c = None \<longrightarrow>
              (c \<in> set class_names \<longrightarrow> map_of APs c = Some 0) \<and>
              (c \<notin> set class_names \<longrightarrow> map_of APs c = map_of [] c) \<and>
              map_of cnt c = map_of [] c"
    by auto
  have ne: "APs \<noteq> []" using keys c by auto
  from alist_sum_card [OF dist] keys have
    s: "sum_list (map snd APs) = (\<Sum>k \<in> set class_names. the (map_of APs k))"
    and l: "length APs = card (set class_names)" by simp_all
  have "compute_mAP gt_classes_records pred_classes_records class_names =
          Inr (APs, cnt, Some ((\<Sum>k \<in> set class_names. the (map_of APs k)) / real (card (set class_names)) * 100))"
    using ne by (simp add: compute_mAP_def r np_mean_def s l)
  moreover have "map_of APs c = Some 0" "map_of cnt c = None" using vals c np by simp_all
  ultimately show ?thesis using dist keys by blast
qed

theorem compute_mAP_no_predictions_witness:
  "\<exists>APs cnt mAP.
     compute_mAP [''cat'' \<mapsto> [(''x'', (0, 0, 10, 10))], ''dog'' \<mapsto> [(''x'', (0, 0, 5, 5))]]
       [''cat'' \<mapsto> [\<lparr>pred_image = ''x'', pred_box = (0, 0, 10, 10), pred_score = 9 / 10\<rparr>]]
       [''cat'', ''dog''] = Inr (APs, cnt, Some mAP) \<and>
     map_of APs ''dog'' = Some 0 \<and> map_of cnt ''dog'' = None"
proof -
  let ?g = "[''cat'' \<mapsto> [(''x'', (0::real, 0::real, 10::real, 10::real))], ''dog'' \<mapsto> [(''x'', (0, 0, 5, 5))]]"
  let ?p = "[''cat'' \<mapsto> [\<lparr>pred_image = ''x'', pred_box = (0, 0, 10, 10), pred_score = 9 / 10\<rparr>]]"
  have "''dog'' \<in> set [''cat'', ''dog'']" "?p ''dog'' = None"
    "\<forall>k \<in> set [''cat'', ''dog'']. ?g k \<noteq> None \<and> (?p k \<noteq> None \<longrightarrow> ?g k \<noteq> Some [])"
    by simp_all
  from compute_mAP_no_predictions [OF this] show ?thesis by blast
qed

text \<open>
  The claim as stated fails for a vocabulary class that has neither predictions nor
  ground truth: the lookup \<open>gt_classes_records[class_name]\<close> comes before the test for
  predictions and raises \<open>KeyError\<close>, so no AP is recorded and no mAP is computed.
\<close>

theorem compute_mAP_key_error_counterexample:
  "''dog'' \<in> set [''cat'', ''dog''] \<and> (Map.empty :: string \<rightharpoonup> pred_record list) ''dog'' = None \<and>
   compute_mAP [''cat'' \<mapsto> [(''x'', (0, 0, 10, 10))]] Map.empty [''cat'', ''dog''] = Inl KeyError"
  by (simp add: compute_mAP_def)

end
